theory Spec2Isabelle
  imports Complex_Main
begin

section \<open>Responsive code formatting: the segment model\<close>

text \<open>
  A shallow embedding of \<^verbatim>\<open>static/responsive-code.js\<close>.

  A JavaScript string is a sequence of code units; it is modelled as a \<^typ>\<open>string\<close>
  (one \<^typ>\<open>char\<close> per code unit, so the texts covered are those of the Latin-1 range).
  String lengths and offsets are natural numbers; values that the source lets become
  \<^verbatim>\<open>-1\<close> (a failed search, the bracket column, the best break so far) are integers.

  A segment is \<^verbatim>\<open>{ text, open, close }\<close>: plain text and the tag that wraps it.
  A line is an array of segments.
\<close>

record segment =
  seg_text :: string
  seg_open :: string
  seg_close :: string

type_synonym line = "segment list"

text \<open>\<^verbatim>\<open>plain(line)\<close>: the texts of the segments, joined.\<close>

definition plain :: "line \<Rightarrow> string" where
  "plain lne = concat (map seg_text lne)"

text \<open>
  The regular expression class \<^verbatim>\<open>\s\<close> on code units below 256: tab, line feed,
  vertical tab, form feed, carriage return, space and the no-break space.
\<close>

definition isWhite :: "char \<Rightarrow> bool" where
  "isWhite c = (c = CHR 0x09 \<or> c = CHR 0x0A \<or> c = CHR 0x0B \<or> c = CHR 0x0C
      \<or> c = CHR 0x0D \<or> c = CHR '' '' \<or> c = CHR 0xA0)"

text \<open>\<^verbatim>\<open>s.search(/\S/)\<close>: the index of the first character that is not white space,
  \<^verbatim>\<open>-1\<close> when there is none.\<close>

definition searchNonWhite :: "string \<Rightarrow> int" where
  "searchNonWhite s =
     (if list_all isWhite s then - 1 else int (length (takeWhile isWhite s)))"

text \<open>\<^verbatim>\<open>Math.max(0, plain(line).search(/\S/))\<close>, as it stands in
  \<^verbatim>\<open>leadingSpaces\<close>, \<^verbatim>\<open>applyIndentFactor\<close> and \<^verbatim>\<open>breakLine\<close>.\<close>

definition indentOf :: "string \<Rightarrow> nat" where
  "indentOf s = nat (max 0 (searchNonWhite s))"

definition leadingSpaces :: "line \<Rightarrow> nat" where
  "leadingSpaces lne = indentOf (plain lne)"

text \<open>\<^verbatim>\<open>s.replace(/c/g, r)\<close> for a one-character pattern.\<close>

definition replaceAll :: "char \<Rightarrow> string \<Rightarrow> string \<Rightarrow> string" where
  "replaceAll c r s = concat (map (\<lambda>x. if x = c then r else [x]) s)"

definition escapeHTML :: "string \<Rightarrow> string" where
  "escapeHTML s =
     replaceAll (CHR ''>'') ''&gt;'' (replaceAll (CHR ''<'') ''&lt;''
       (replaceAll (CHR ''&'') ''&amp;'' s))"

definition segHTML :: "segment \<Rightarrow> string" where
  "segHTML sg =
     (let e = escapeHTML (seg_text sg)
      in if seg_open sg \<noteq> [] then seg_open sg @ e @ seg_close sg else e)"

definition toHTML :: "line \<Rightarrow> string" where
  "toHTML lne = concat (map segHTML lne)"

text \<open>
  \<^verbatim>\<open>stripLeading\<close>: the loop over the segments with its flag \<^verbatim>\<open>stripping\<close>. While
  the flag is set, the leading spaces \<^verbatim>\<open>j\<close> of a segment are counted; a segment of
  spaces only (or an empty one) is dropped, the first other segment is cut and clears
  the flag.
\<close>

definition countSpaces :: "string \<Rightarrow> nat" where
  "countSpaces t = length (takeWhile (\<lambda>c. c = CHR '' '') t)"

fun stripLoop :: "bool \<Rightarrow> line \<Rightarrow> line" where
  "stripLoop stripping [] = []"
| "stripLoop stripping (sg # rest) =
     (if stripping then
        (let t = seg_text sg; j = countSpaces t
         in if j < length t
            then \<lparr>seg_text = drop j t, seg_open = seg_open sg, seg_close = seg_close sg\<rparr>
                   # stripLoop False rest
            else stripLoop True rest)
      else sg # stripLoop False rest)"

definition stripLeading :: "line \<Rightarrow> line" where
  "stripLeading lne = stripLoop True lne"

text \<open>
  \<^verbatim>\<open>removeNSpaces(line, n)\<close>: while \<^verbatim>\<open>rem\<close> is positive, each segment loses its
  leading spaces, at most \<^verbatim>\<open>rem\<close> of them; a segment left empty is kept only when it
  is styled.
\<close>

fun removeLoop :: "nat \<Rightarrow> line \<Rightarrow> line" where
  "removeLoop rem [] = []"
| "removeLoop rem (sg # rest) =
     (if 0 < rem then
        (let t = seg_text sg;
             cut = countSpaces (take rem t);
             rest_t = drop cut t
         in (if rest_t \<noteq> [] \<or> seg_open sg \<noteq> []
             then [\<lparr>seg_text = rest_t, seg_open = seg_open sg, seg_close = seg_close sg\<rparr>]
             else [])
            @ removeLoop (rem - cut) rest)
      else sg # removeLoop rem rest)"

definition removeNSpaces :: "line \<Rightarrow> int \<Rightarrow> line" where
  "removeNSpaces lne n = (if n \<le> 0 then lne else removeLoop (nat n) lne)"

text \<open>
  \<^verbatim>\<open>splitAt(line, pos)\<close>: the loop with its counter \<^verbatim>\<open>count\<close> and its flag
  \<^verbatim>\<open>done\<close>; the result is the pair \<^verbatim>\<open>[before, after]\<close>. The offset is one the
  scanner returned, a natural number.
\<close>

fun splitLoop :: "nat \<Rightarrow> nat \<Rightarrow> bool \<Rightarrow> line \<Rightarrow> line \<times> line" where
  "splitLoop pos count dn [] = ([], [])"
| "splitLoop pos count dn (sg # rest) =
     (if dn then
        (let (before, after) = splitLoop pos count True rest in (before, sg # after))
      else if count + length (seg_text sg) \<le> pos then
        (let count' = count + length (seg_text sg);
             (before, after) = splitLoop pos count' (count' = pos) rest
         in (sg # before, after))
      else
        (let atp = pos - count;
             (before, after) = splitLoop pos count True rest
         in (\<lparr>seg_text = take atp (seg_text sg), seg_open = seg_open sg,
               seg_close = seg_close sg\<rparr> # before,
             (if atp < length (seg_text sg)
              then [\<lparr>seg_text = drop atp (seg_text sg), seg_open = seg_open sg,
                      seg_close = seg_close sg\<rparr>]
              else []) @ after)))"

definition splitAt :: "line \<Rightarrow> nat \<Rightarrow> line \<times> line" where
  "splitAt lne pos = splitLoop pos 0 False lne"

text \<open>\<^verbatim>\<open>prependPad(line, n)\<close>: an unstyled segment of \<^verbatim>\<open>n\<close> spaces before the
  stripped line.\<close>

definition prependPad :: "line \<Rightarrow> nat \<Rightarrow> line" where
  "prependPad lne n =
     \<lparr>seg_text = replicate n (CHR '' ''), seg_open = [], seg_close = []\<rparr> # stripLeading lne"

section \<open>Tuning constants and language tables\<close>

definition MAX_LINES :: nat where "MAX_LINES = 500"
definition MAX_SPLITS :: nat where "MAX_SPLITS = 10"
definition MAX_COLS :: int where "MAX_COLS = 200"
definition DEFAULT_INDENT_STEP :: nat where "DEFAULT_INDENT_STEP = 4"
definition CONT_INDENT :: int where "CONT_INDENT = 4"
definition MIN_COMPRESSED_STEP :: nat where "MIN_COMPRESSED_STEP = 2"
definition COMPRESS_THRESHOLD :: int where "COMPRESS_THRESHOLD = 55"
definition COMPRESS_AGGRESSIVE :: int where "COMPRESS_AGGRESSIVE = 35"
definition BACKSLASH_RESERVE :: int where "BACKSLASH_RESERVE = 2"
definition PAREN_OFFSET :: int where "PAREN_OFFSET = 1"
definition LD_COLON_OFFSET :: int where "LD_COLON_OFFSET = 2"

text \<open>The double quote, the single quote and the backslash.\<close>

definition dquote :: char where "dquote = CHR 0x22"
definition squote :: char where "squote = CHR 0x27"
definition backslash :: char where "backslash = CHR 0x5C"

text \<open>
  \<^verbatim>\<open>SKIP_LANGS[lang]\<close> is a property lookup on an object literal: besides the three
  own keys it is truthy for the two lower-case names every object inherits,
  \<^verbatim>\<open>constructor\<close> and \<^verbatim>\<open>__proto__\<close>. \<^verbatim>\<open>formatBlock\<close> and \<^verbatim>\<open>formatAll\<close> test
  it first, so these two tags never reach the other tables, which are modelled by their
  own keys.
\<close>

definition SKIP_LANGS :: "string \<Rightarrow> bool" where
  "SKIP_LANGS lang = (lang \<in> set [''asm'', ''nasm'', ''gas'', ''constructor'', ''__proto__''])"

definition SPACE_BREAK_LANGS :: "string \<Rightarrow> bool" where
  "SPACE_BREAK_LANGS lang = (lang \<in> set [''bash'', ''dockerfile'', ''nix''])"

definition BACKSLASH_LANGS :: "string \<Rightarrow> bool" where
  "BACKSLASH_LANGS lang = (lang \<in> set [''bash'', ''dockerfile''])"

text \<open>\<^verbatim>\<open>OPENERS\<close> and \<^verbatim>\<open>CLOSERS\<close>, from a bracket to its partner.\<close>

definition OPENERS :: "char \<Rightarrow> char option" where
  "OPENERS c = (if c = CHR ''('' then Some (CHR '')'')
     else if c = CHR ''['' then Some (CHR '']'')
     else if c = CHR ''{'' then Some (CHR ''}'') else None)"

definition CLOSERS :: "char \<Rightarrow> char option" where
  "CLOSERS c = (if c = CHR '')'' then Some (CHR ''('')
     else if c = CHR '']'' then Some (CHR ''['')
     else if c = CHR ''}'' then Some (CHR ''{'') else None)"

datatype mode = After | Before

record rule =
  pat :: string
  mode :: mode
  sep :: bool

definition mk :: "string \<Rightarrow> mode \<Rightarrow> bool \<Rightarrow> rule" where
  "mk p m s = \<lparr>pat = p, mode = m, sep = s\<rparr>"

definition c_like :: "rule list" where
  "c_like = [mk ''{'' After False, mk ''}'' Before False, mk '' = '' After False,
             mk '' || '' Before False, mk '' && '' Before False]"

definition COMMON_RULES :: "rule list" where
  "COMMON_RULES = [mk '', '' After True, mk ''; '' After True,
                   mk ''('' After False, mk '')'' Before False]"

definition RULES :: "string \<Rightarrow> rule list option" where
  "RULES lang =
     (if lang = ''c'' then
        Some (c_like @ [mk '' << '' Before False, mk '' >> '' Before False,
                        mk ''->'' Before False] @ COMMON_RULES)
      else if lang = ''cpp'' then
        Some (c_like @ [mk '' << '' Before False, mk '' >> '' Before False,
                        mk ''->'' Before False, mk ''::'' Before False] @ COMMON_RULES)
      else if lang = ''h'' then Some (c_like @ COMMON_RULES)
      else if lang = ''cmake'' then
        Some ([mk '' -'' Before True, mk [CHR '' '', dquote] Before True] @ COMMON_RULES)
      else if lang = ''ld'' then
        Some ([mk '', '' Before True, mk '': '' After False, mk '' > '' Before False]
              @ COMMON_RULES)
      else None)"

definition SPACE_RULES :: "rule list" where
  "SPACE_RULES = [mk '' '' Before True]"

text \<open>\<^verbatim>\<open>isSpaceLang ? SPACE_RULES : (RULES[lang] || COMMON_RULES)\<close>\<close>

definition rulesFor :: "string \<Rightarrow> rule list" where
  "rulesFor lang =
     (if SPACE_BREAK_LANGS lang then SPACE_RULES
      else case RULES lang of Some rs \<Rightarrow> rs | None \<Rightarrow> COMMON_RULES)"

section \<open>Indent analysis\<close>

text \<open>\<^verbatim>\<open>detectIndentStep\<close>: the loop keeps in \<^verbatim>\<open>step\<close> the least positive indent seen,
  \<^verbatim>\<open>0\<close> while none was seen.\<close>

fun detectLoop :: "nat \<Rightarrow> line list \<Rightarrow> nat" where
  "detectLoop step [] = step"
| "detectLoop step (l # ls) =
     (let sp = leadingSpaces l
      in detectLoop (if 0 < sp \<and> (step = 0 \<or> sp < step) then sp else step) ls)"

definition detectIndentStep :: "line list \<Rightarrow> nat" where
  "detectIndentStep lines =
     (let step = detectLoop 0 lines in if step = 0 then DEFAULT_INDENT_STEP else step)"

text \<open>\<^verbatim>\<open>computeCompressedStep(step, cols)\<close>; \<^verbatim>\<open>step >> 1\<close> on a length is
  \<open>step div 2\<close>.\<close>

definition computeCompressedStep :: "nat \<Rightarrow> int \<Rightarrow> nat" where
  "computeCompressedStep step cols =
     (if COMPRESS_THRESHOLD \<le> cols \<or> step \<le> MIN_COMPRESSED_STEP then step
      else if cols < COMPRESS_AGGRESSIVE then max (step div 2) MIN_COMPRESSED_STEP
      else max (step - 1) MIN_COMPRESSED_STEP)"

text \<open>
  \<^verbatim>\<open>applyIndentFactor(lines, factor)\<close>. The factor is a quotient of two small indent
  units; it is modelled as the exact rational, and \<^verbatim>\<open>Math.round\<close> as rounding half
  up. The loop's variables \<^verbatim>\<open>prevOrig\<close>, \<^verbatim>\<open>prevSp\<close>, \<^verbatim>\<open>prevRemoved\<close> and
  \<^verbatim>\<open>prevAligned\<close> are the record \<open>indent_state\<close>.
\<close>

definition jsRound :: "rat \<Rightarrow> int" where
  "jsRound x = \<lfloor>x + 1 / 2\<rfloor>"

record indent_state =
  prevOrig :: "string option"
  prevSp :: nat
  prevRemoved :: int
  prevAligned :: bool

definition indentInit :: indent_state where
  "indentInit = \<lparr>prevOrig = None, prevSp = 0, prevRemoved = 0, prevAligned = False\<rparr>"

definition hasPrevContent :: "indent_state \<Rightarrow> nat \<Rightarrow> bool" where
  "hasPrevContent st sp =
     (case prevOrig st of None \<Rightarrow> False
      | Some po \<Rightarrow> sp < length po \<and> po ! sp \<noteq> CHR '' '')"

definition isAligned :: "nat \<Rightarrow> indent_state \<Rightarrow> nat \<Rightarrow> bool" where
  "isAligned step st sp =
     (hasPrevContent st sp \<and>
      (prevSp st < sp \<and> int step < int sp - int (prevSp st) \<or> prevAligned st \<and> prevSp st \<le> sp))"

definition removeCount :: "nat \<Rightarrow> rat \<Rightarrow> indent_state \<Rightarrow> nat \<Rightarrow> int" where
  "removeCount step factor st sp =
     (if isAligned step st sp then prevRemoved st
      else int sp - jsRound (of_nat sp * factor))"

text \<open>One iteration: the line as it is left in \<^verbatim>\<open>lines[i]\<close>, and the variables after
  it.\<close>

definition indentLine :: "nat \<Rightarrow> rat \<Rightarrow> indent_state \<Rightarrow> line \<Rightarrow> line" where
  "indentLine step factor st l =
     (let sp = indentOf (plain l)
      in if 0 < sp \<and> 0 < removeCount step factor st sp
         then removeNSpaces l (removeCount step factor st sp) else l)"

definition indentNext :: "nat \<Rightarrow> rat \<Rightarrow> indent_state \<Rightarrow> line \<Rightarrow> indent_state" where
  "indentNext step factor st l =
     (let orig = plain l; sp = indentOf orig
      in if 0 < sp
         then \<lparr>prevOrig = Some orig, prevSp = sp,
               prevRemoved = removeCount step factor st sp,
               prevAligned = isAligned step st sp\<rparr>
         else \<lparr>prevOrig = Some orig, prevSp = sp, prevRemoved = 0, prevAligned = False\<rparr>)"

definition indentChanged :: "nat \<Rightarrow> rat \<Rightarrow> indent_state \<Rightarrow> line \<Rightarrow> bool" where
  "indentChanged step factor st l =
     (let sp = indentOf (plain l) in 0 < sp \<and> 0 < removeCount step factor st sp)"

fun indentLoop :: "nat \<Rightarrow> rat \<Rightarrow> indent_state \<Rightarrow> line list \<Rightarrow> line list \<times> bool" where
  "indentLoop step factor st [] = ([], False)"
| "indentLoop step factor st (l # ls) =
     (let r = indentLoop step factor (indentNext step factor st l) ls
      in (indentLine step factor st l # fst r, indentChanged step factor st l \<or> snd r))"

text \<open>The result is the array \<^verbatim>\<open>lines\<close> as the loop leaves it, and \<^verbatim>\<open>changed\<close>.\<close>

definition applyIndentFactor :: "line list \<Rightarrow> rat \<Rightarrow> line list \<times> bool" where
  "applyIndentFactor lines factor =
     indentLoop (detectIndentStep lines) factor indentInit lines"

text \<open>The loop's variables before each line (the first entry is the initial state):
  entry \<open>i + 1\<close> holds, in \<open>prevAligned\<close> and \<open>prevRemoved\<close>, how line \<open>i\<close> was
  classified and how many spaces were asked to be removed from it.\<close>

fun indentStates :: "nat \<Rightarrow> rat \<Rightarrow> indent_state \<Rightarrow> line list \<Rightarrow> indent_state list" where
  "indentStates step factor st [] = [st]"
| "indentStates step factor st (l # ls) =
     st # indentStates step factor (indentNext step factor st l) ls"

section \<open>Line breaking\<close>

text \<open>
  \<^verbatim>\<open>singleArgContainer(text, openPos)\<close>: the loop runs from \<^verbatim>\<open>openPos\<close> to the end of
  the text, here over the characters left.
\<close>

fun sacLoop :: "char \<Rightarrow> char \<Rightarrow> int \<Rightarrow> string \<Rightarrow> bool" where
  "sacLoop opn cls d [] = True"
| "sacLoop opn cls d (c # cs) =
     (if c = opn then sacLoop opn cls (d + 1) cs
      else if c = cls then (if d - 1 = 0 then True else sacLoop opn cls (d - 1) cs)
      else if c = CHR '','' \<and> d = 1 then False
      else sacLoop opn cls d cs)"

definition singleArgContainer :: "string \<Rightarrow> nat \<Rightarrow> bool" where
  "singleArgContainer text openPos =
     (if openPos < length text then
        (case OPENERS (text ! openPos) of
           None \<Rightarrow> False
         | Some cls \<Rightarrow> sacLoop (text ! openPos) cls 0 (drop openPos text))
      else False)"

text \<open>
  \<^verbatim>\<open>findMatchingOpen(text, closePos)\<close>: the loop runs from \<^verbatim>\<open>closePos\<close> down to
  \<^verbatim>\<open>0\<close>; \<open>fmoLoop \<dots> (Suc i)\<close> is the iteration at index \<open>i\<close>.
\<close>

fun fmoLoop :: "string \<Rightarrow> char \<Rightarrow> char \<Rightarrow> int \<Rightarrow> nat \<Rightarrow> int" where
  "fmoLoop text cls opn d 0 = - 1"
| "fmoLoop text cls opn d (Suc i) =
     (if text ! i = cls then fmoLoop text cls opn (d + 1) i
      else if text ! i = opn then (if d - 1 = 0 then int i else fmoLoop text cls opn (d - 1) i)
      else fmoLoop text cls opn d i)"

definition findMatchingOpen :: "string \<Rightarrow> nat \<Rightarrow> int" where
  "findMatchingOpen text closePos =
     (if closePos < length text then
        (case CLOSERS (text ! closePos) of
           None \<Rightarrow> - 1
         | Some opn \<Rightarrow> fmoLoop text (text ! closePos) opn 0 (Suc closePos))
      else - 1)"

text \<open>The bracket state \<^verbatim>\<open>{ depth, col }\<close> and the scanner's result
  \<^verbatim>\<open>{ bp, ps, hasArgSep }\<close>.\<close>

record pstate =
  depth :: int
  col :: int

record scan_result =
  bp :: nat
  ps :: pstate
  hasArgSep :: bool

text \<open>The variables of \<^verbatim>\<open>scanChunk\<close>'s loop; \<open>sdepth\<close> is its \<^verbatim>\<open>depth\<close>.\<close>

record scan_state =
  inStr :: bool
  strChar :: char
  sdepth :: int
  openCol :: int
  best :: int
  bestPs :: "pstate option"
  lastSepPos :: int

text \<open>The pattern of a rule stands at index \<open>i\<close>: the first character is the current
  one and the others follow; reading past the end of the text never matches.\<close>

definition matchesAt :: "string \<Rightarrow> nat \<Rightarrow> string \<Rightarrow> bool" where
  "matchesAt text i p =
     (p \<noteq> [] \<and> i < length text \<and> text ! i = hd p \<and>
      list_all (\<lambda>k. i + k < length text \<and> text ! (i + k) = p ! k) [1..<length p])"

text \<open>The single-argument test on a rule whose pattern is one bracket.\<close>

definition skipsSingleArg :: "string \<Rightarrow> nat \<Rightarrow> string \<Rightarrow> bool" where
  "skipsSingleArg text i p =
     (if length p = 1 \<and> OPENERS (hd p) \<noteq> None then singleArgContainer text i
      else if length p = 1 \<and> CLOSERS (hd p) \<noteq> None then
        (let opos = findMatchingOpen text i
         in 0 \<le> opos \<and> singleArgContainer text (nat opos))
      else False)"

text \<open>The body of the loop over the rules, for one rule; \<open>prev\<close> is the bracket state
  before the current character (\<^verbatim>\<open>prevDepth\<close>, \<^verbatim>\<open>prevOpenCol\<close>).\<close>

definition applyRule :: "string \<Rightarrow> nat \<Rightarrow> int \<Rightarrow> nat \<Rightarrow> pstate \<Rightarrow> scan_state \<Rightarrow> rule \<Rightarrow> scan_state" where
  "applyRule text flr maxCols i prev st r =
     (let plen = length (pat r) in
      if \<not> matchesAt text i (pat r) then st
      else
        (let b = (if mode r = After then i + plen else i) in
         if b \<le> flr \<or> length text \<le> b then st
         else if skipsSingleArg text i (pat r) then st
         else
           (let st1 = (if sep r \<and> lastSepPos st < int b then st\<lparr>lastSepPos := int b\<rparr> else st)
            in if int b \<le> maxCols \<and> best st1 < int b
               then st1\<lparr>best := int b,
                        bestPs := Some (if mode r = Before \<and> plen = 1 \<and> CLOSERS (hd (pat r)) \<noteq> None
                                        then prev
                                        else \<lparr>depth = sdepth st1, col = openCol st1\<rparr>)\<rparr>
               else st1)))"

text \<open>The bracket update of the current character.\<close>

definition bracketUpdate :: "char \<Rightarrow> nat \<Rightarrow> scan_state \<Rightarrow> scan_state" where
  "bracketUpdate c i st =
     (if OPENERS c \<noteq> None then st\<lparr>sdepth := sdepth st + 1, openCol := int i\<rparr>
      else if CLOSERS c \<noteq> None then
        (if sdepth st - 1 \<le> 0 then st\<lparr>sdepth := 0, openCol := - 1\<rparr>
         else st\<lparr>sdepth := sdepth st - 1\<rparr>)
      else st)"

text \<open>One iteration of the loop over the characters.\<close>

definition scanStep :: "string \<Rightarrow> rule list \<Rightarrow> nat \<Rightarrow> int \<Rightarrow> scan_state \<Rightarrow> nat \<Rightarrow> scan_state" where
  "scanStep text rules flr maxCols st i =
     (let c = text ! i in
      if inStr st then
        (if c = strChar st \<and> (i = 0 \<or> text ! (i - 1) \<noteq> backslash) then st\<lparr>inStr := False\<rparr>
         else st)
      else if c = dquote \<or> c = squote then st\<lparr>inStr := True, strChar := c\<rparr>
      else
        (let prev = \<lparr>depth = sdepth st, col = openCol st\<rparr>;
             st1 = bracketUpdate c i st
         in foldl (applyRule text flr maxCols i prev) st1 rules))"

definition scanInit :: "pstate \<Rightarrow> scan_state" where
  "scanInit initPs =
     \<lparr>inStr = False, strChar = CHR 0x00, sdepth = depth initPs, openCol = col initPs,
      best = - 1, bestPs = None, lastSepPos = - 1\<rparr>"

definition scanLoop :: "string \<Rightarrow> string \<Rightarrow> nat \<Rightarrow> int \<Rightarrow> pstate \<Rightarrow> scan_state" where
  "scanLoop text lang flr maxCols initPs =
     foldl (scanStep text (rulesFor lang) flr maxCols) (scanInit initPs) [0..<length text]"

text \<open>\<^verbatim>\<open>scanChunk\<close>: \<open>None\<close> is \<^verbatim>\<open>null\<close>. Once \<^verbatim>\<open>best\<close> is not negative,
  \<^verbatim>\<open>bestPs\<close> has been assigned with it.\<close>

definition scanChunk :: "string \<Rightarrow> string \<Rightarrow> nat \<Rightarrow> int \<Rightarrow> pstate \<Rightarrow> scan_result option" where
  "scanChunk text lang flr maxCols initPs =
     (let st = scanLoop text lang flr maxCols initPs in
      if best st < 0 then None
      else case bestPs st of
             None \<Rightarrow> None
           | Some p \<Rightarrow> Some \<lparr>bp = nat (best st), ps = p, hasArgSep = (best st \<le> lastSepPos st)\<rparr>)"

text \<open>\<^verbatim>\<open>text.indexOf(": ")\<close>\<close>

fun indexOfColon :: "string \<Rightarrow> nat \<Rightarrow> int" where
  "indexOfColon [] i = - 1"
| "indexOfColon [c] i = - 1"
| "indexOfColon (c # d # cs) i =
     (if c = CHR '':'' \<and> d = CHR '' '' then int i else indexOfColon (d # cs) (Suc i))"

definition defaultContIndent :: "string \<Rightarrow> string \<Rightarrow> nat \<Rightarrow> int" where
  "defaultContIndent lang text indent =
     (if lang = ''ld'' then
        (let colon = indexOfColon text 0
         in if 0 \<le> colon then colon + LD_COLON_OFFSET else int indent + CONT_INDENT)
      else int indent + CONT_INDENT)"

text \<open>\<^verbatim>\<open>continuationIndent\<close>; \<^verbatim>\<open>maxCols >> 1\<close> on the column count is
  \<open>maxCols div 2\<close>, rounding down.\<close>

definition continuationIndent :: "pstate \<Rightarrow> int \<Rightarrow> nat \<Rightarrow> int \<Rightarrow> int \<Rightarrow> int" where
  "continuationIndent p prevDepth indent fallback maxCols =
     (let ci = (if 0 < depth p \<and> 0 \<le> col p then col p + PAREN_OFFSET
                else if 0 < prevDepth \<and> depth p = 0 then int indent
                else fallback)
      in min ci (maxCols div 2))"

text \<open>The continuation indent of one accepted break, with the single-argument
  override that follows the call of \<^verbatim>\<open>continuationIndent\<close> in \<^verbatim>\<open>breakLine\<close>.\<close>

definition chooseIndent :: "scan_result \<Rightarrow> int \<Rightarrow> nat \<Rightarrow> int \<Rightarrow> int \<Rightarrow> int" where
  "chooseIndent res prevDepth indent fallbackCI cols =
     (let ci = continuationIndent (ps res) prevDepth indent fallbackCI cols
      in if 0 < depth (ps res) \<and> fallbackCI < ci \<and> \<not> hasArgSep res
         then min fallbackCI (cols div 2) else ci)"

text \<open>
  One accepted break of \<^verbatim>\<open>breakLine\<close>: the half \<^verbatim>\<open>halves[0]\<close> that is emitted, the
  scanner's result, and the continuation indent \<^verbatim>\<open>ci\<close> given to the rest.
\<close>

record brk =
  before :: line
  res :: scan_result
  ci :: int

text \<open>
  The loop of \<^verbatim>\<open>breakLine\<close>; its first argument is the counter \<^verbatim>\<open>splits\<close>. The
  result is the list of the accepted breaks, in order, and the last \<^verbatim>\<open>rem\<close>.
  \<^verbatim>\<open>" ".repeat(ci)\<close> throws on a negative count; the indent is never negative (lemma
  \<open>chooseIndent_nonneg\<close>), so \<open>nat ci\<close> is the count.
\<close>

fun breakLoop :: "nat \<Rightarrow> string \<Rightarrow> int \<Rightarrow> int \<Rightarrow> nat \<Rightarrow> int \<Rightarrow> line \<Rightarrow> pstate \<Rightarrow> nat
    \<Rightarrow> brk list \<times> line" where
  "breakLoop 0 lang cols budget indent fallbackCI rem p prevLen = ([], rem)"
| "breakLoop (Suc splits) lang cols budget indent fallbackCI rem p prevLen =
     (let rt = plain rem in
      if int (length rt) \<le> budget then ([], rem)
      else
        (case scanChunk rt lang (indentOf rt) budget p of
           None \<Rightarrow> ([], rem)
         | Some result \<Rightarrow>
             if int (length rt) - 1 \<le> int (bp result) then ([], rem)
             else
               (let halves = splitAt rem (bp result);
                    c = chooseIndent result (depth p) indent fallbackCI cols;
                    piece = \<lparr>before = fst halves, res = result, ci = c\<rparr>;
                    rem' = prependPad (snd halves) (nat c);
                    newLen = length (plain rem')
                in if prevLen \<le> newLen then ([piece], rem')
                   else
                     (let r = breakLoop splits lang cols budget indent fallbackCI rem'
                                (ps result) newLen
                      in (piece # fst r, snd r)))))"

definition budgetOf :: "int \<Rightarrow> string \<Rightarrow> int" where
  "budgetOf cols lang = (if BACKSLASH_LANGS lang then cols - BACKSLASH_RESERVE else cols)"

text \<open>The breaks of a line and its last remainder; \<open>None\<close> where \<^verbatim>\<open>breakLine\<close>
  returns \<^verbatim>\<open>null\<close>.\<close>

definition breakPieces :: "line \<Rightarrow> int \<Rightarrow> string \<Rightarrow> (brk list \<times> line) option" where
  "breakPieces lne cols lang =
     (let text = plain lne; budget = budgetOf cols lang in
      if int (length text) \<le> budget then None
      else
        (let indent = leadingSpaces lne;
             fallbackCI = defaultContIndent lang text indent;
             r = breakLoop MAX_SPLITS lang cols budget indent fallbackCI lne
                   \<lparr>depth = 0, col = - 1\<rparr> (length text)
         in if fst r = [] then None else Some r))"

text \<open>The continuation marker \<^verbatim>\<open>" \\"\<close> of the languages that use one.\<close>

definition marker :: "string \<Rightarrow> string" where
  "marker lang = (if BACKSLASH_LANGS lang then [CHR '' '', backslash] else [])"

text \<open>\<^verbatim>\<open>pieces.join("\n")\<close>\<close>

fun joinNL :: "string list \<Rightarrow> string" where
  "joinNL [] = []"
| "joinNL [x] = x"
| "joinNL (x # y # ys) = x @ [CHR 0x0A] @ joinNL (y # ys)"

definition breakLine :: "line \<Rightarrow> int \<Rightarrow> string \<Rightarrow> string option" where
  "breakLine lne cols lang =
     (case breakPieces lne cols lang of
        None \<Rightarrow> None
      | Some r \<Rightarrow>
          Some (joinNL (map (\<lambda>b. toHTML (before b) @ marker lang) (fst r) @ [toHTML (snd r)])))"

text \<open>The lines as they are emitted, before rendering: the text of each half with its
  marker, then the text of the last remainder.\<close>

definition emitted :: "string \<Rightarrow> brk list \<times> line \<Rightarrow> string list" where
  "emitted lang r = map (\<lambda>b. plain (before b) @ marker lang) (fst r) @ [plain (snd r)]"

section \<open>Blocks and the page\<close>

text \<open>
  The children of a \<^verbatim>\<open>code\<close> element that \<^verbatim>\<open>extractLines\<close> tells apart: a text node
  with its \<^verbatim>\<open>textContent\<close>, a \<^verbatim>\<open>span\<close> element with its \<^verbatim>\<open>outerHTML\<close> and its
  \<^verbatim>\<open>textContent\<close>, and any other node.
\<close>

datatype node = TextNode string | SpanNode string string | OtherNode

text \<open>\<^verbatim>\<open>html.slice(0, html.indexOf(">") + 1)\<close>\<close>

definition openTag :: "string \<Rightarrow> string" where
  "openTag html =
     (if CHR ''>'' \<in> set html
      then take (length (takeWhile (\<lambda>c. c \<noteq> CHR ''>'') html) + 1) html else [])"

text \<open>\<^verbatim>\<open>text.split("\n")\<close>\<close>

fun splitNL :: "string \<Rightarrow> string list" where
  "splitNL [] = [[]]"
| "splitNL (c # cs) =
     (if c = CHR 0x0A then [] # splitNL cs
      else (let r = splitNL cs in (c # hd r) # tl r))"

text \<open>\<^verbatim>\<open>lines[lines.length - 1].push(sg)\<close>\<close>

definition pushSeg :: "line list \<Rightarrow> segment \<Rightarrow> line list" where
  "pushSeg lines sg = butlast lines @ [last lines @ [sg]]"

text \<open>The loop over the parts of one node; \<open>p\<close> is its index.\<close>

fun addParts :: "string \<Rightarrow> string \<Rightarrow> nat \<Rightarrow> string list \<Rightarrow> line list \<Rightarrow> line list" where
  "addParts opn cls p [] lines = lines"
| "addParts opn cls p (part # parts) lines =
     (let lines1 = (if 0 < p then lines @ [[]] else lines);
          lines2 = (if part \<noteq> [] \<or> (p = 0 \<and> opn \<noteq> [])
                    then pushSeg lines1 \<lparr>seg_text = part, seg_open = opn, seg_close = cls\<rparr>
                    else lines1)
      in addParts opn cls (Suc p) parts lines2)"

fun extractLoop :: "node list \<Rightarrow> line list \<Rightarrow> line list" where
  "extractLoop [] lines = lines"
| "extractLoop (TextNode t # ns) lines = extractLoop ns (addParts [] [] 0 (splitNL t) lines)"
| "extractLoop (SpanNode html t # ns) lines =
     extractLoop ns (addParts (openTag html) ''</span>'' 0 (splitNL t) lines)"
| "extractLoop (OtherNode # ns) lines = extractLoop ns lines"

definition extractLines :: "node list \<Rightarrow> line list" where
  "extractLines nodes = extractLoop nodes [[]]"

text \<open>
  A \<^verbatim>\<open>code\<close> element is its child nodes and its attribute \<^verbatim>\<open>data-original\<close>
  (\<open>None\<close> when absent); a \<^verbatim>\<open>pre\<close> element is its attribute \<^verbatim>\<open>data-lang\<close> and the
  \<^verbatim>\<open>code\<close> element that \<^verbatim>\<open>querySelector("code")\<close> finds in it.

  Reading \<^verbatim>\<open>innerHTML\<close> serialises the child nodes and assigning to it parses the
  markup into new child nodes. Both are the browser's; they are the two fields of
  \<open>browser\<close>, about which nothing is assumed.
\<close>

record code_el =
  childNodes :: "node list"
  data_original :: "string option"

record pre_el =
  data_lang :: "string option"
  codeEl :: "code_el option"

record browser =
  parseHTML :: "string \<Rightarrow> node list"
  serializeHTML :: "node list \<Rightarrow> string"

text \<open>\<^verbatim>\<open>toLowerCase\<close> on code units below 256.\<close>

definition toLowerChar :: "char \<Rightarrow> char" where
  "toLowerChar c =
     (let n = (of_char c :: nat)
      in if (65 \<le> n \<and> n \<le> 90) \<or> (192 \<le> n \<and> n \<le> 222 \<and> n \<noteq> 215)
         then char_of (n + 32) else c)"

definition toLowerCase :: "string \<Rightarrow> string" where
  "toLowerCase s = map toLowerChar s"

text \<open>\<^verbatim>\<open>(pre.getAttribute("data-lang") || "").toLowerCase()\<close>\<close>

definition langOf :: "pre_el \<Rightarrow> string" where
  "langOf pre = toLowerCase (case data_lang pre of None \<Rightarrow> [] | Some l \<Rightarrow> l)"

text \<open>The array \<^verbatim>\<open>output\<close> of \<^verbatim>\<open>formatBlock\<close> and its flag \<^verbatim>\<open>changed\<close>.\<close>

definition formatLines :: "line list \<Rightarrow> int \<Rightarrow> rat \<Rightarrow> string \<Rightarrow> string list \<times> bool" where
  "formatLines lines cols factor lang =
     (let r = (if factor < 1 then applyIndentFactor lines factor else (lines, False));
          outs = map (\<lambda>l. case breakLine l cols lang of
                             Some b \<Rightarrow> (b, True)
                           | None \<Rightarrow> (toHTML l, False)) (fst r)
      in (map fst outs, snd r \<or> list_ex snd outs))"

definition formatBlock :: "browser \<Rightarrow> pre_el \<Rightarrow> int \<Rightarrow> rat \<Rightarrow> pre_el" where
  "formatBlock B pre cols factor =
     (case codeEl pre of
        None \<Rightarrow> pre
      | Some ce \<Rightarrow>
          if SKIP_LANGS (langOf pre) then pre
          else
            (let lines = extractLines (childNodes ce) in
             if MAX_LINES < length lines then pre
             else
               (let r = formatLines lines cols factor (langOf pre) in
                if snd r then
                  pre\<lparr>codeEl := Some
                    \<lparr>childNodes = parseHTML B (joinNL (fst r)),
                     data_original =
                       (case data_original ce of
                          None \<Rightarrow> Some (serializeHTML B (childNodes ce))
                        | Some h \<Rightarrow> Some h)\<rparr>\<rparr>
                else pre)))"

text \<open>\<^verbatim>\<open>restoreAll\<close>, on one \<^verbatim>\<open>pre\<close> element and on all of them.\<close>

definition restoreOne :: "browser \<Rightarrow> pre_el \<Rightarrow> pre_el" where
  "restoreOne B pre =
     (case codeEl pre of
        None \<Rightarrow> pre
      | Some ce \<Rightarrow>
          (case data_original ce of
             None \<Rightarrow> pre
           | Some h \<Rightarrow> pre\<lparr>codeEl := Some (ce\<lparr>childNodes := parseHTML B h\<rparr>)\<rparr>))"

definition restoreAll :: "browser \<Rightarrow> pre_el list \<Rightarrow> pre_el list" where
  "restoreAll B page = map (restoreOne B) page"

text \<open>The loop of \<^verbatim>\<open>formatAll\<close> that computes the page's indent factor from the first
  block that can be processed.\<close>

fun pageFactor :: "int \<Rightarrow> pre_el list \<Rightarrow> rat" where
  "pageFactor cols [] = 1"
| "pageFactor cols (pre # pres) =
     (if SKIP_LANGS (langOf pre) then pageFactor cols pres
      else case codeEl pre of
             None \<Rightarrow> pageFactor cols pres
           | Some ce \<Rightarrow>
               (let lines0 = extractLines (childNodes ce) in
                if MAX_LINES < length lines0 then pageFactor cols pres
                else (let step = detectIndentStep lines0
                      in of_nat (computeCompressedStep step cols) / of_nat step)))"

text \<open>
  \<^verbatim>\<open>formatAll\<close>. The page is the list of its \<^verbatim>\<open>pre\<close> elements; \<open>cols\<close> is the
  width that \<^verbatim>\<open>measureColumns\<close> reports for the pass.
\<close>

definition formatAll :: "browser \<Rightarrow> int \<Rightarrow> pre_el list \<Rightarrow> pre_el list" where
  "formatAll B cols page =
     (let page1 = restoreAll B page;
          pres = filter (\<lambda>p. data_lang p \<noteq> None) page1
      in if pres = [] then page1
         else if cols \<le> 0 \<or> MAX_COLS \<le> cols then page1
         else
           (let factor = pageFactor cols pres
            in map (\<lambda>p. if data_lang p \<noteq> None then formatBlock B p cols factor else p) page1))"

section \<open>Notions used to state the properties\<close>

text \<open>A segment with the tags of \<open>sg\<close> and the text \<open>t\<close>.\<close>

definition cutSeg :: "segment \<Rightarrow> string \<Rightarrow> segment" where
  "cutSeg sg t = \<lparr>seg_text = t, seg_open = seg_open sg, seg_close = seg_close sg\<rparr>"

text \<open>The positive indents of the lines of a block.\<close>

definition positives :: "line list \<Rightarrow> nat list" where
  "positives lines = filter (\<lambda>n. 0 < n) (map leadingSpaces lines)"

text \<open>An unstyled segment, and a block without a snapshot.\<close>

definition seg :: "string \<Rightarrow> segment" where
  "seg t = \<lparr>seg_text = t, seg_open = [], seg_close = []\<rparr>"

definition pristine :: "pre_el \<Rightarrow> bool" where
  "pristine pre = (case codeEl pre of None \<Rightarrow> True | Some ce \<Rightarrow> data_original ce = None)"

text \<open>The best break found so far, when there is one, lies within the bounds.\<close>

definition bestBounded :: "string \<Rightarrow> nat \<Rightarrow> int \<Rightarrow> scan_state \<Rightarrow> bool" where
  "bestBounded text flr maxCols st =
     (0 \<le> best st \<longrightarrow> best st \<le> maxCols \<and> nat (best st) < length text \<and> flr < nat (best st))"

















text \<open>
  Quoted runs as the quote-awareness of the scanner is described: a run opens at a
  single or double quote that is outside any run and not preceded by a backslash, and
  closes at the next occurrence of the same quote character that is not preceded by a
  backslash. \<open>quoteAfter q prev s\<close> is the open quote character, if any, after the
  characters \<open>s\<close>, started from \<open>q\<close> with \<open>prev\<close> the character before them;
  offset \<open>k\<close> lies inside a quoted run when a run is open after the first \<open>k\<close>
  characters.
\<close>

definition quoteStep :: "char option \<Rightarrow> char \<Rightarrow> char \<Rightarrow> char option" where
  "quoteStep q prev c =
     (case q of
        None \<Rightarrow> if (c = dquote \<or> c = squote) \<and> prev \<noteq> backslash then Some c else None
      | Some qc \<Rightarrow> if c = qc \<and> prev \<noteq> backslash then None else Some qc)"

fun quoteAfter :: "char option \<Rightarrow> char \<Rightarrow> string \<Rightarrow> char option" where
  "quoteAfter q prev [] = q"
| "quoteAfter q prev (c # cs) = quoteAfter (quoteStep q prev c) c cs"

definition insideQuote :: "string \<Rightarrow> nat \<Rightarrow> bool" where
  "insideQuote text k = (quoteAfter None (CHR 0x00) (take k text) \<noteq> None)"





definition escapedText :: string where
  "escapedText = ''echo '' @ [backslash, dquote] @ ''x'' @ [backslash, dquote] @ '' ''
                   @ [dquote] @ ''aaaa bbbb cccc'' @ [dquote]"

text \<open>The indentation of a line consists of space characters only.\<close>

definition spaceIndented :: "line \<Rightarrow> bool" where
  "spaceIndented l = (indentOf (plain l) \<le> countSpaces (plain l))"

text \<open>The count of spaces to remove that the loop of \<open>applyIndentFactor\<close> carries
  from a line to the next is not negative and at most that line's indent.\<close>

definition remOK :: "indent_state \<Rightarrow> bool" where
  "remOK st = (0 \<le> prevRemoved st \<and> prevRemoved st \<le> int (prevSp st))"

text \<open>
  A browser reduced to plain text, for the examples: markup is parsed to one text
  node, and nodes are serialised to their text. A block of plain text in a given
  language, without a snapshot. A page of two blocks, the first indented by three
  spaces and the second by four.
\<close>

definition nodeText :: "node \<Rightarrow> string" where
  "nodeText n = (case n of TextNode t \<Rightarrow> t | SpanNode html t \<Rightarrow> html | OtherNode \<Rightarrow> [])"

definition textBrowser :: browser where
  "textBrowser = \<lparr>parseHTML = (\<lambda>h. [TextNode h]), serializeHTML = (\<lambda>ns. concat (map nodeText ns))\<rparr>"

definition block :: "string \<Rightarrow> string \<Rightarrow> pre_el" where
  "block lang t = \<lparr>data_lang = Some lang,
                   codeEl = Some \<lparr>childNodes = [TextNode t], data_original = None\<rparr>\<rparr>"

definition twoBlocks :: "pre_el list" where
  "twoBlocks = [block ''c'' (''a'' @ [CHR 0x0A] @ ''   b''),
                block ''c'' (''x'' @ [CHR 0x0A] @ ''    y'')]"

text \<open>A block with unit \<open>4\<close> whose last line is aligned under the first argument
  of the call in the line before.\<close>

definition alignedBlock :: "line list" where
  "alignedBlock = [[seg ''int f() {''], [seg ''    foobar(x,''], [seg ''           y);'']]"

text \<open>
  The snapshot attribute of a block, and the lines \<open>extractLines\<close> reads from it.
  The content of a block round-trips when the lines read from its serialised and
  re-parsed child nodes are the lines read from the child nodes themselves. Two blocks
  have the same lines when their language tags and their lines agree. \<open>passOne\<close> is
  what \<open>formatAll\<close> does to one restored block.
\<close>

definition snapshot :: "pre_el \<Rightarrow> string option" where
  "snapshot pre = (case codeEl pre of None \<Rightarrow> None | Some ce \<Rightarrow> data_original ce)"

definition linesOf :: "pre_el \<Rightarrow> line list option" where
  "linesOf pre = map_option (\<lambda>ce. extractLines (childNodes ce)) (codeEl pre)"

definition roundTrips :: "browser \<Rightarrow> pre_el \<Rightarrow> bool" where
  "roundTrips B pre =
     (case codeEl pre of
        None \<Rightarrow> True
      | Some ce \<Rightarrow> extractLines (parseHTML B (serializeHTML B (childNodes ce)))
                    = extractLines (childNodes ce))"

definition sameLines :: "pre_el \<Rightarrow> pre_el \<Rightarrow> bool" where
  "sameLines p q = (data_lang p = data_lang q \<and> linesOf p = linesOf q)"

definition passOne :: "browser \<Rightarrow> int \<Rightarrow> rat \<Rightarrow> pre_el \<Rightarrow> pre_el" where
  "passOne B cols f p = (if data_lang p \<noteq> None then formatBlock B p cols f else p)"

text \<open>
  The rows of a broken line with the inserted continuation indentation stripped: the
  first row loses \<open>k\<close> leading characters, and the row after a break loses as many
  as the continuation indent of that break. Markers are not part of these rows.
\<close>

fun rowContents :: "brk list \<Rightarrow> line \<Rightarrow> nat \<Rightarrow> string list" where
  "rowContents [] rem k = [drop k (plain rem)]"
| "rowContents (b # bs) rem k = drop k (plain (before b)) # rowContents bs rem (nat (ci b))"

text \<open>The rows joined again, with a run of \<open>g\<close> spaces between one row and the
  next, for the \<open>g\<close> of that place in the list of gaps.\<close>

fun joinGaps :: "string list \<Rightarrow> nat list \<Rightarrow> string" where
  "joinGaps [] gs = []"
| "joinGaps [r] gs = r"
| "joinGaps (r # r' # rs) [] = r @ joinGaps (r' # rs) []"
| "joinGaps (r # r' # rs) (g # gs) = r @ replicate g (CHR '' '') @ joinGaps (r' # rs) gs"

text \<open>The tokens of a line of a space-delimited language: its maximal runs of
  characters other than the space.\<close>

fun splitSp :: "string \<Rightarrow> string list" where
  "splitSp [] = [[]]"
| "splitSp (c # cs) =
     (if c = CHR '' '' then [] # splitSp cs
      else (let r = splitSp cs in (c # hd r) # tl r))"

definition tokens :: "string \<Rightarrow> string list" where
  "tokens s = filter (\<lambda>w. w \<noteq> []) (splitSp s)"

text \<open>Two lines used as examples, with the breaks \<open>breakLine\<close> makes in them: a C
  condition at \<open>30\<close> columns and a shell command at \<open>11\<close> columns.\<close>

definition condLine :: line where
  "condLine = [seg ''if (connection_is_ready && buffer_has_capacity(buf, len)) {'']"

definition condBreaks :: "brk list \<times> line" where
  "condBreaks =
     ([\<lparr>before = [seg ''if (connection_is_ready''],
        res = \<lparr>bp = 23, ps = \<lparr>depth = 1, col = 3\<rparr>, hasArgSep = True\<rparr>, ci = 4\<rparr>,
       \<lparr>before = [seg ''    '', seg ''&& buffer_has_capacity(''],
        res = \<lparr>bp = 27, ps = \<lparr>depth = 2, col = 26\<rparr>, hasArgSep = True\<rparr>, ci = 15\<rparr>],
      [seg ''               '', seg ''buf, len)) {''])"

definition shellLine :: line where
  "shellLine = [seg ''aaaa bbbb cccc dddd'']"

definition shellBreaks :: "brk list \<times> line" where
  "shellBreaks =
     ([\<lparr>before = [seg ''aaaa bbbb''],
        res = \<lparr>bp = 9, ps = \<lparr>depth = 0, col = - 1\<rparr>, hasArgSep = True\<rparr>, ci = 4\<rparr>,
       \<lparr>before = [seg ''    '', seg ''cccc''],
        res = \<lparr>bp = 8, ps = \<lparr>depth = 0, col = - 1\<rparr>, hasArgSep = True\<rparr>, ci = 4\<rparr>],
      [seg ''    '', seg ''dddd''])"



definition escapedLine :: line where
  "escapedLine = [seg escapedText]"

definition escapedBreaks :: "brk list \<times> line" where
  "escapedBreaks =
     ([\<lparr>before = [seg (''echo '' @ [backslash, dquote] @ ''x'' @ [backslash, dquote] @ '' ''
                          @ [dquote] @ ''aaaa'')],
        res = \<lparr>bp = 16, ps = \<lparr>depth = 0, col = - 1\<rparr>, hasArgSep = True\<rparr>, ci = 4\<rparr>],
      [seg ''    '', seg (''bbbb cccc'' @ [dquote])])"

section \<open>Properties of the segment model\<close>

lemma plain_Nil [simp]: "plain [] = []"
  by (simp add: plain_def)

lemma plain_Cons [simp]: "plain (sg # lne) = seg_text sg @ plain lne"
  by (simp add: plain_def)

lemma plain_append [simp]: "plain (xs @ ys) = plain xs @ plain ys"
  by (simp add: plain_def)

lemma splitLoop_done:
  "splitLoop pos count True lne = ([], lne)"
  by (induction lne) auto

lemma splitLoop_plain:
  "count \<le> pos \<Longrightarrow>
   plain (fst (splitLoop pos count False lne)) = take (pos - count) (plain lne) \<and>
   plain (snd (splitLoop pos count False lne)) = drop (pos - count) (plain lne)"
proof (induction lne arbitrary: count)
  case Nil
  then show ?case by simp
next
  case (Cons sg rest)
  show ?case
  proof (cases "count + length (seg_text sg) \<le> pos")
    case True
    let ?c = "count + length (seg_text sg)"
    show ?thesis
    proof (cases "?c = pos")
      case True
      with Cons.prems show ?thesis
        by (simp add: splitLoop_done case_prod_unfold Let_def)
    next
      case False
      with True have lt: "?c \<le> pos" by simp
      from Cons.IH [OF lt] True False show ?thesis
        by (simp add: case_prod_unfold Let_def)
    qed
  next
    case False
    with Cons.prems have "pos - count < length (seg_text sg)" by arith
    with False Cons.prems show ?thesis
      by (simp add: splitLoop_done case_prod_unfold Let_def)
  qed
qed

lemma splitLoop_shape:
  "count \<le> pos \<Longrightarrow>
   \<exists>k. (fst (splitLoop pos count False lne) = take k lne \<and>
        snd (splitLoop pos count False lne) = drop k lne) \<or>
       (k < length lne \<and>
        (\<exists>a. a < length (seg_text (lne ! k)) \<and>
              pos = count + length (plain (take k lne)) + a \<and>
              fst (splitLoop pos count False lne)
                = take k lne @ [cutSeg (lne ! k) (take a (seg_text (lne ! k)))] \<and>
              snd (splitLoop pos count False lne)
                = cutSeg (lne ! k) (drop a (seg_text (lne ! k))) # drop (Suc k) lne))"
proof (induction lne arbitrary: count)
  case Nil
  then show ?case by simp
next
  case (Cons sg rest)
  let ?c = "count + length (seg_text sg)"
  show ?case
  proof (cases "?c \<le> pos")
    case True
    show ?thesis
    proof (cases "?c = pos")
      case True
      then have "fst (splitLoop pos count False (sg # rest)) = take 1 (sg # rest) \<and>
           snd (splitLoop pos count False (sg # rest)) = drop 1 (sg # rest)"
        by (simp add: splitLoop_done)
      then show ?thesis by blast
    next
      case False
      have f: "fst (splitLoop pos count False (sg # rest)) = sg # fst (splitLoop pos ?c False rest)"
        and s: "snd (splitLoop pos count False (sg # rest)) = snd (splitLoop pos ?c False rest)"
        using True False by (simp_all add: case_prod_unfold Let_def)
      from Cons.IH [OF True] obtain k where
        k: "(fst (splitLoop pos ?c False rest) = take k rest \<and>
             snd (splitLoop pos ?c False rest) = drop k rest) \<or>
            (k < length rest \<and>
             (\<exists>a. a < length (seg_text (rest ! k)) \<and>
                pos = ?c + length (plain (take k rest)) + a \<and>
                fst (splitLoop pos ?c False rest)
                  = take k rest @ [cutSeg (rest ! k) (take a (seg_text (rest ! k)))] \<and>
                snd (splitLoop pos ?c False rest)
                  = cutSeg (rest ! k) (drop a (seg_text (rest ! k))) # drop (Suc k) rest))"
        by blast
      from k show ?thesis
      proof
        assume "fst (splitLoop pos ?c False rest) = take k rest \<and>
             snd (splitLoop pos ?c False rest) = drop k rest"
        then have "fst (splitLoop pos count False (sg # rest)) = take (Suc k) (sg # rest) \<and>
             snd (splitLoop pos count False (sg # rest)) = drop (Suc k) (sg # rest)"
          unfolding f s by simp
        then show ?thesis by blast
      next
        assume "k < length rest \<and>
             (\<exists>a. a < length (seg_text (rest ! k)) \<and>
                pos = ?c + length (plain (take k rest)) + a \<and>
                fst (splitLoop pos ?c False rest)
                  = take k rest @ [cutSeg (rest ! k) (take a (seg_text (rest ! k)))] \<and>
                snd (splitLoop pos ?c False rest)
                  = cutSeg (rest ! k) (drop a (seg_text (rest ! k))) # drop (Suc k) rest)"
        then obtain a where a: "k < length rest" "a < length (seg_text (rest ! k))"
          "pos = ?c + length (plain (take k rest)) + a"
          "fst (splitLoop pos ?c False rest)
                  = take k rest @ [cutSeg (rest ! k) (take a (seg_text (rest ! k)))]"
          "snd (splitLoop pos ?c False rest)
                  = cutSeg (rest ! k) (drop a (seg_text (rest ! k))) # drop (Suc k) rest"
          by blast
        have "Suc k < length (sg # rest) \<and>
          (\<exists>a. a < length (seg_text ((sg # rest) ! Suc k)) \<and>
              pos = count + length (plain (take (Suc k) (sg # rest))) + a \<and>
              fst (splitLoop pos count False (sg # rest))
                = take (Suc k) (sg # rest) @ [cutSeg ((sg # rest) ! Suc k) (take a (seg_text ((sg # rest) ! Suc k)))] \<and>
              snd (splitLoop pos count False (sg # rest))
                = cutSeg ((sg # rest) ! Suc k) (drop a (seg_text ((sg # rest) ! Suc k))) # drop (Suc (Suc k)) (sg # rest))"
          using a unfolding f s by auto
        then show ?thesis by blast
      qed
    qed
  next
    case False
    define a where "a = pos - count"
    from False Cons.prems have lt: "a < length (seg_text sg)" and p: "pos = count + a"
      by (simp_all add: a_def)
    have f0: "fst (splitLoop pos count False (sg # rest)) = [cutSeg sg (take a (seg_text sg))]"
      using False by (simp add: splitLoop_done Let_def cutSeg_def a_def)
    have s0: "snd (splitLoop pos count False (sg # rest)) = cutSeg sg (drop a (seg_text sg)) # rest"
      using False lt by (simp add: splitLoop_done Let_def cutSeg_def a_def)
    have "0 < length (sg # rest) \<and>
          (\<exists>a. a < length (seg_text ((sg # rest) ! 0)) \<and>
              pos = count + length (plain (take 0 (sg # rest))) + a \<and>
              fst (splitLoop pos count False (sg # rest))
                = take 0 (sg # rest) @ [cutSeg ((sg # rest) ! 0) (take a (seg_text ((sg # rest) ! 0)))] \<and>
              snd (splitLoop pos count False (sg # rest))
                = cutSeg ((sg # rest) ! 0) (drop a (seg_text ((sg # rest) ! 0))) # drop (Suc 0) (sg # rest))"
      unfolding f0 s0 using lt p by simp
    then show ?thesis by blast
  qed
qed

text \<open>
  Claim C10. For every line and every offset \<open>pos\<close> (in particular every offset from
  \<open>0\<close> to the length of the line's text), \<open>splitAt\<close> returns a pair whose first part
  flattens to the first \<open>pos\<close> characters of the line and whose second part flattens
  to the rest. Either the cut falls between two segments, and the parts are the first
  \<open>k\<close> segments and the others, unchanged; or segment \<open>k\<close> straddles the cut, at
  offset \<open>a\<close> of its text, and then the first part is the first \<open>k\<close> segments
  followed by a segment with the first \<open>a\<close> characters of that text, and the second
  part is a segment with the rest of that text followed by the segments after it, the
  two new segments carrying the opening and closing tag of segment \<open>k\<close>. So every
  produced segment carries the markup of the segment its text comes from.
\<close>

theorem splitAt_preserves:
  "plain (fst (splitAt lne pos)) = take pos (plain lne) \<and>
   plain (snd (splitAt lne pos)) = drop pos (plain lne) \<and>
   (\<exists>k. (fst (splitAt lne pos) = take k lne \<and> snd (splitAt lne pos) = drop k lne) \<or>
        (k < length lne \<and>
         (\<exists>a. a < length (seg_text (lne ! k)) \<and>
               pos = length (plain (take k lne)) + a \<and>
               fst (splitAt lne pos)
                 = take k lne @ [cutSeg (lne ! k) (take a (seg_text (lne ! k)))] \<and>
               snd (splitAt lne pos)
                 = cutSeg (lne ! k) (drop a (seg_text (lne ! k))) # drop (Suc k) lne)))"
  using splitLoop_plain [of 0 pos lne] splitLoop_shape [of 0 pos lne]
  by (simp add: splitAt_def)

theorem splitAt_preserves_witness:
  "plain (fst (splitAt [\<lparr>seg_text = ''int'', seg_open = ''<span>'', seg_close = ''</span>''\<rparr>,
                        seg '' x = 1;''] 5)) = ''int x'' \<and>
   plain (snd (splitAt [\<lparr>seg_text = ''int'', seg_open = ''<span>'', seg_close = ''</span>''\<rparr>,
                        seg '' x = 1;''] 5)) = '' = 1;'' \<and>
   fst (splitAt [\<lparr>seg_text = ''int'', seg_open = ''<span>'', seg_close = ''</span>''\<rparr>,
                 seg '' x = 1;''] 5)
     = [\<lparr>seg_text = ''int'', seg_open = ''<span>'', seg_close = ''</span>''\<rparr>, seg '' x''] \<and>
   snd (splitAt [\<lparr>seg_text = ''int'', seg_open = ''<span>'', seg_close = ''</span>''\<rparr>,
                 seg '' x = 1;''] 5) = [seg '' = 1;'']"
  using splitAt_preserves
    [of "[\<lparr>seg_text = ''int'', seg_open = ''<span>'', seg_close = ''</span>''\<rparr>, seg '' x = 1;'']" 5]
  by (simp add: seg_def splitAt_def)

section \<open>Properties of the indent analysis\<close>

lemma Min_insert_le:
  "finite A \<Longrightarrow> (x::nat) \<le> y \<Longrightarrow> Min (insert y (insert x A)) = Min (insert x A)"
proof -
  assume f: "finite A" and le: "x \<le> y"
  have "Min (insert y (insert x A)) = min y (Min (insert x A))"
    using f by (simp del: Min_insert add: Min_insert [of "insert x A" y])
  moreover have "Min (insert x A) \<le> x" using f by simp
  ultimately show ?thesis using le by (simp add: min_def)
qed

lemma detectLoop_min:
  "detectLoop step ls =
     (if step = 0 then (if positives ls = [] then 0 else Min (set (positives ls)))
      else Min (insert step (set (positives ls))))"
proof (induction ls arbitrary: step)
  case Nil
  then show ?case by (simp add: positives_def)
next
  case (Cons l ls)
  let ?sp = "leadingSpaces l"
  let ?m = "positives ls"
  show ?case
  proof (cases "0 < ?sp")
    case False
    then have "positives (l # ls) = ?m" by (simp add: positives_def)
    with False Cons.IH [of step] show ?thesis by simp
  next
    case True
    then have p: "positives (l # ls) = ?sp # ?m" by (simp add: positives_def)
    show ?thesis
    proof (cases "step = 0 \<or> ?sp < step")
      case new: True
      then have d: "detectLoop step (l # ls) = Min (insert ?sp (set ?m))"
        using True Cons.IH [of ?sp] by simp
      show ?thesis
      proof (cases "step = 0")
        case True
        with d p show ?thesis by simp
      next
        case False
        with new have "?sp \<le> step" by simp
        then have "Min (insert step (insert ?sp (set ?m))) = Min (insert ?sp (set ?m))"
          by (rule Min_insert_le [OF finite_set])
        with d p False show ?thesis by simp
      qed
    next
      case old: False
      then have d: "detectLoop step (l # ls) = Min (insert step (set ?m))"
        using True Cons.IH [of step] by simp
      from old have "step \<le> ?sp" by simp
      then have "Min (insert ?sp (insert step (set ?m))) = Min (insert step (set ?m))"
        by (rule Min_insert_le [OF finite_set])
      then have "Min (insert step (insert ?sp (set ?m))) = Min (insert step (set ?m))"
        by (simp add: insert_commute)
      with d p old show ?thesis by simp
    qed
  qed
qed

lemma detectIndentStep_min:
  "detectIndentStep lines =
     (if positives lines = [] then DEFAULT_INDENT_STEP else Min (set (positives lines)))"
proof (cases "positives lines = []")
  case True
  then show ?thesis by (simp add: detectIndentStep_def detectLoop_min)
next
  case False
  define m where "m = Min (set (positives lines))"
  from False have "m \<in> set (positives lines)" unfolding m_def by simp
  then have pos: "m \<noteq> 0" unfolding positives_def by auto
  have "detectLoop 0 lines = m" using False by (simp add: detectLoop_min m_def)
  then have "detectIndentStep lines = m" using pos by (simp add: detectIndentStep_def)
  with False show ?thesis by (simp add: m_def)
qed

lemma computeCompressedStep_cases:
  "computeCompressedStep step cols =
     (if 55 \<le> cols \<or> step \<le> 2 then step
      else if cols < 35 then max (step div 2) 2 else step - 1)"
  by (auto simp add: computeCompressedStep_def COMPRESS_THRESHOLD_def
        COMPRESS_AGGRESSIVE_def MIN_COMPRESSED_STEP_def max_def)

text \<open>
  Claim C7, as stated, fails: a block whose least positive indent is one space has
  unit \<open>1\<close>, and below the aggressive threshold its compressed unit is \<open>1\<close>, not the
  unit halved and raised to the floor \<open>2\<close>.
\<close>

theorem compressed_step_counterexample:
  "detectIndentStep [[seg ''a''], [seg '' b'']] = 1 \<and>
   computeCompressedStep (detectIndentStep [[seg ''a''], [seg '' b'']]) 30 = 1 \<and>
   computeCompressedStep (detectIndentStep [[seg ''a''], [seg '' b'']]) 30
     \<noteq> max (detectIndentStep [[seg ''a''], [seg '' b'']] div 2) MIN_COMPRESSED_STEP"
proof -
  have d: "detectIndentStep [[seg ''a''], [seg '' b'']] = 1"
    by (simp add: detectIndentStep_def leadingSpaces_def indentOf_def searchNonWhite_def
          isWhite_def seg_def Let_def)
  show ?thesis
    unfolding d
    by (simp add: computeCompressedStep_def MIN_COMPRESSED_STEP_def COMPRESS_THRESHOLD_def)
qed

text \<open>
  Claim C7, amended. The detected unit is the least positive indent of the block's
  lines, or the default \<open>4\<close> when no line is indented. The compressed unit is the unit
  itself when the column count is at least \<open>55\<close> or the unit is at most \<open>2\<close>;
  for a unit of at least \<open>3\<close> it is the unit halved (rounding down) but not below
  \<open>2\<close> when the column count is below \<open>35\<close>, and the unit less one, which is at
  least \<open>2\<close>, when the column count is from \<open>35\<close> to \<open>54\<close>.
\<close>

theorem indent_unit_and_compression:
  "detectIndentStep lines =
     (if positives lines = [] then 4 else Min (set (positives lines))) \<and>
   computeCompressedStep step cols =
     (if 55 \<le> cols \<or> step \<le> 2 then step
      else if cols < 35 then max (step div 2) 2
      else step - 1) \<and>
   (if 55 \<le> cols \<or> step \<le> 2 then True else 2 \<le> computeCompressedStep step cols)"
  by (auto simp add: detectIndentStep_min DEFAULT_INDENT_STEP_def computeCompressedStep_cases)

theorem indent_unit_and_compression_witness:
  "detectIndentStep [[seg ''if (x) {''], [seg ''    y();''], [seg ''        z();'']] = 4 \<and>
   computeCompressedStep 4 30 = 2 \<and> computeCompressedStep 4 40 = 3 \<and>
   computeCompressedStep 4 60 = 4"
proof -
  have p: "positives [[seg ''if (x) {''], [seg ''    y();''], [seg ''        z();'']] = [4, 8]"
    by (simp add: positives_def leadingSpaces_def indentOf_def searchNonWhite_def
          isWhite_def seg_def)
  show ?thesis
    using indent_unit_and_compression
            [of "[[seg ''if (x) {''], [seg ''    y();''], [seg ''        z();'']]" 4 30]
          indent_unit_and_compression [of "[]" 4 40]
          indent_unit_and_compression [of "[]" 4 60]
    by (simp add: p)
qed

lemma countSpaces_take: "countSpaces (take n t) = min n (countSpaces t)"
  unfolding countSpaces_def
  by (induction t arbitrary: n) (auto simp add: take_Cons' )

lemma countSpaces_append:
  "countSpaces (t @ r) = (if countSpaces t = length t then length t + countSpaces r else countSpaces t)"
  unfolding countSpaces_def by (induction t) auto

lemma removeLoop_zero [simp]: "removeLoop 0 l = l"
  by (induction l) auto

lemma countSpaces_le: "countSpaces t \<le> length t"
  by (simp add: countSpaces_def length_takeWhile_le)

lemma removeLoop_plain:
  "n \<le> countSpaces (plain l) \<Longrightarrow> plain (removeLoop n l) = drop n (plain l)"
proof (induction l arbitrary: n)
  case Nil
  then show ?case by simp
next
  case (Cons sg rest)
  let ?t = "seg_text sg"
  show ?case
  proof (cases "n = 0")
    case True
    then show ?thesis by simp
  next
    case pos: False
    show ?thesis
    proof (cases "n \<le> countSpaces ?t")
      case True
      then have "n \<le> length ?t" using countSpaces_le [of ?t] by simp
      with True pos show ?thesis
        by (simp add: countSpaces_take Let_def min_def)
    next
      case False
      with Cons.prems have full: "countSpaces ?t = length ?t"
        and rest: "n - length ?t \<le> countSpaces (plain rest)"
        by (auto simp add: countSpaces_append split: if_splits)
      from False full have lt: "length ?t < n" by simp
      then have cut: "countSpaces (take n ?t) = length ?t"
        by (simp add: countSpaces_take full)
      from Cons.IH [OF rest] lt pos show ?thesis
        by (simp add: cut full Let_def)
    qed
  qed
qed

lemma removeNSpaces_plain:
  "0 \<le> n \<Longrightarrow> nat n \<le> countSpaces (plain l) \<Longrightarrow> plain (removeNSpaces l n) = drop (nat n) (plain l)"
  by (cases "n = 0") (simp_all add: removeNSpaces_def removeLoop_plain)

lemma jsRound_bounds:
  assumes "0 \<le> f" "f \<le> 1"
  shows "0 \<le> jsRound (of_nat sp * f) \<and> jsRound (of_nat sp * f) \<le> int sp"
proof -
  have a: "0 \<le> of_nat sp * f" using assms by simp
  have b: "of_nat sp * f \<le> of_nat sp" using assms by (simp add: mult_left_le)
  have "(0::rat) \<le> of_nat sp * f + 1 / 2" using a by simp
  then have lo: "0 \<le> \<lfloor>of_nat sp * f + 1 / 2\<rfloor>" by simp
  have "of_nat sp * f + 1 / 2 < of_int (int sp + 1)" using b by simp
  then have "\<lfloor>of_nat sp * f + 1 / 2\<rfloor> < int sp + 1" by (simp only: floor_less_iff)
  with lo show ?thesis by (simp add: jsRound_def)
qed

lemma jsRound_half: "jsRound (of_nat sp * (1 / 2)) = (int sp + 1) div 2"
proof -
  have "of_nat sp * (1 / 2) + 1 / 2 = (of_int (int sp + 1) :: rat) / of_int 2" by simp
  then have "\<lfloor>of_nat sp * (1 / 2) + 1 / (2::rat)\<rfloor> = \<lfloor>(of_int (int sp + 1) :: rat) / of_int 2\<rfloor>"
    by (simp only:)
  also have "\<dots> = (int sp + 1) div 2" by (rule floor_divide_of_int_eq)
  finally show ?thesis by (simp add: jsRound_def)
qed

lemma jsRound_half_div: "jsRound (of_nat sp / 2) = (int sp + 1) div 2"
  using jsRound_half [of sp] by simp

lemma indentNext_remOK:
  assumes "0 \<le> f" "f \<le> 1" "remOK st"
  shows "remOK (indentNext step f st l)"
  using assms jsRound_bounds [OF assms(1,2), of "indentOf (plain l)"]
  by (auto simp add: remOK_def indentNext_def Let_def removeCount_def isAligned_def)

lemma indentStates_length [simp]: "length (indentStates step f st ls) = Suc (length ls)"
  by (induction ls arbitrary: st) auto

lemma indentLoop_length [simp]: "length (fst (indentLoop step f st ls)) = length ls"
  by (induction ls arbitrary: st) (auto simp add: Let_def)

lemma indentStates_Suc:
  "j < length ls \<Longrightarrow>
   indentStates step f st ls ! Suc j = indentNext step f (indentStates step f st ls ! j) (ls ! j)"
proof (induction ls arbitrary: st j)
  case Nil
  then show ?case by simp
next
  case (Cons l ls)
  show ?case
  proof (cases j)
    case 0
    then show ?thesis by (cases ls) simp_all
  next
    case (Suc k)
    with Cons.prems have "k < length ls" by simp
    from Cons.IH [OF this] Suc show ?thesis by simp
  qed
qed

lemma indentLoop_nth:
  "j < length ls \<Longrightarrow>
   fst (indentLoop step f st ls) ! j = indentLine step f (indentStates step f st ls ! j) (ls ! j)"
proof (induction ls arbitrary: st j)
  case Nil
  then show ?case by simp
next
  case (Cons l ls)
  show ?case
  proof (cases j)
    case 0
    then show ?thesis by (simp add: Let_def)
  next
    case (Suc k)
    with Cons.prems have "k < length ls" by simp
    from Cons.IH [OF this] Suc show ?thesis by (simp add: Let_def)
  qed
qed

lemma indentStates_remOK:
  assumes "0 \<le> f" "f \<le> 1" "remOK st" "j \<le> length ls"
  shows "remOK (indentStates step f st ls ! j)"
  using assms(3,4)
proof (induction ls arbitrary: st j)
  case Nil
  then show ?case by simp
next
  case (Cons l ls)
  show ?case
  proof (cases j)
    case 0
    with Cons.prems show ?thesis by simp
  next
    case (Suc k)
    with Cons.prems have k: "k \<le> length ls" by simp
    have "remOK (indentNext step f st l)" using assms(1,2) Cons.prems(1) by (rule indentNext_remOK)
    from Cons.IH [OF this k] Suc show ?thesis by simp
  qed
qed

lemma indentStates_prev:
  "Suc k < Suc (length ls) \<Longrightarrow>
   prevOrig (indentStates step f st ls ! Suc k) = Some (plain (ls ! k)) \<and>
   prevSp (indentStates step f st ls ! Suc k) = indentOf (plain (ls ! k))"
  using indentStates_Suc [of k ls step f st]
  by (simp add: indentNext_def Let_def)

lemma floor_numeral_quot:
  "\<lfloor>(numeral a :: rat) / numeral b\<rfloor> = numeral a div numeral b"
  using floor_divide_of_int_eq [of "numeral a" "numeral b", where ?'a = rat] by simp

lemma twoBlocks_pass:
  "map (\<lambda>p. map_option childNodes (codeEl p)) (formatAll textBrowser 30 twoBlocks)
     = [Some [TextNode (''a'' @ [CHR 0x0A] @ ''  b'')], Some [TextNode (''x'' @ [CHR 0x0A] @ ''   y'')]]"
  apply (simp add: formatAll_def restoreAll_def restoreOne_def twoBlocks_def block_def textBrowser_def
     MAX_COLS_def formatBlock_def langOf_def toLowerCase_def toLowerChar_def SKIP_LANGS_def
     extractLines_def pushSeg_def MAX_LINES_def detectIndentStep_def leadingSpaces_def indentOf_def
     searchNonWhite_def isWhite_def computeCompressedStep_def COMPRESS_THRESHOLD_def COMPRESS_AGGRESSIVE_def
     MIN_COMPRESSED_STEP_def DEFAULT_INDENT_STEP_def Let_def)
  apply (simp add: formatLines_def applyIndentFactor_def detectIndentStep_def leadingSpaces_def indentOf_def
     searchNonWhite_def isWhite_def indentInit_def indentLine_def indentNext_def indentChanged_def
     removeCount_def isAligned_def hasPrevContent_def jsRound_def removeNSpaces_def countSpaces_def
     breakLine_def breakPieces_def budgetOf_def BACKSLASH_LANGS_def toHTML_def segHTML_def escapeHTML_def
     replaceAll_def DEFAULT_INDENT_STEP_def Let_def floor_numeral_quot)
  done

text \<open>
  Claim C6, as stated, fails: the factor is the page's, computed from the first block
  that can be processed. On a page whose first block has unit \<open>3\<close>, at \<open>30\<close>
  columns, the factor is two thirds, and in the second block, whose unit is \<open>4\<close>,
  the indent of four spaces becomes three, not two.
\<close>

theorem page_factor_counterexample:
  "detectIndentStep (extractLines [TextNode (''x'' @ [CHR 0x0A] @ ''    y'')]) = 4 \<and>
   (30::int) < COMPRESS_AGGRESSIVE \<and>
   map (\<lambda>p. map_option childNodes (codeEl p)) (formatAll textBrowser 30 twoBlocks)
     = [Some [TextNode (''a'' @ [CHR 0x0A] @ ''  b'')],
        Some [TextNode (''x'' @ [CHR 0x0A] @ ''   y'')]]"
proof -
  have "detectIndentStep (extractLines [TextNode (''x'' @ [CHR 0x0A] @ ''    y'')]) = 4"
    by (simp add: extractLines_def pushSeg_def detectIndentStep_def leadingSpaces_def
          indentOf_def searchNonWhite_def isWhite_def Let_def)
  with twoBlocks_pass show ?thesis by (simp add: COMPRESS_AGGRESSIVE_def)
qed

text \<open>
  Claim C6, amended. When a factor between \<open>0\<close> and \<open>1\<close> is applied to a block,
  every line \<open>j\<close> is passed through \<open>removeNSpaces\<close> with a count \<open>r\<close> between
  \<open>0\<close> and its indent, and a line whose indentation consists of spaces loses
  exactly its first \<open>r\<close> characters. A line is classified as aligned when its indent
  is positive and \<open>isAligned\<close> holds of it (the previous original line has a character
  other than a space at this line's indent column, and either the indent exceeds the
  previous one by more than the block's unit or the previous line was classified as
  aligned and is not indented deeper); its count \<open>r\<close> then is the count of the
  previous line. For any other indented line the count is the indent less the indent
  times the factor, rounded half up; with the factor one half, which is the factor of
  a page whose first block has unit \<open>4\<close> below \<open>35\<close> columns, the indent left is
  the indent halved, rounded half up, and it is at least \<open>2\<close> in a block of unit
  \<open>4\<close>, where every positive indent is at least \<open>4\<close>.
\<close>

theorem aligned_indent_copied:
  assumes f: "0 \<le> factor" "factor \<le> 1" and j: "j < length lines"
  defines "step \<equiv> detectIndentStep lines"
  defines "sts \<equiv> indentStates step factor indentInit lines"
  defines "r \<equiv> prevRemoved (sts ! Suc j)" and "sp \<equiv> indentOf (plain (lines ! j))"
  shows "fst (applyIndentFactor lines factor) ! j = removeNSpaces (lines ! j) r \<and>
       0 \<le> r \<and> r \<le> int sp \<and>
       (spaceIndented (lines ! j) \<longrightarrow>
          plain (fst (applyIndentFactor lines factor) ! j) = drop (nat r) (plain (lines ! j))) \<and>
       (prevAligned (sts ! Suc j) \<longleftrightarrow> 0 < sp \<and> isAligned step (sts ! j) sp) \<and>
       (prevAligned (sts ! Suc j) \<longrightarrow>
          0 < j \<and> r = prevRemoved (sts ! j) \<and>
          prevOrig (sts ! j) = Some (plain (lines ! (j - 1))) \<and>
          prevSp (sts ! j) = indentOf (plain (lines ! (j - 1)))) \<and>
       (\<not> prevAligned (sts ! Suc j) \<and> 0 < sp \<longrightarrow> r = int sp - jsRound (of_nat sp * factor)) \<and>
       (\<not> prevAligned (sts ! Suc j) \<and> 0 < sp \<and> factor = 1 / 2 \<longrightarrow> int sp - r = (int sp + 1) div 2) \<and>
       (step = 4 \<and> 0 < sp \<longrightarrow> 4 \<le> sp) \<and>
       (step = 4 \<and> cols < 35 \<longrightarrow>
          of_nat (computeCompressedStep step cols) / of_nat step = (1 / 2 :: rat))"
proof -
  let ?st = "sts ! j"
  let ?l = "lines ! j"
  have nxt: "sts ! Suc j = indentNext step factor ?st ?l"
    unfolding sts_def using j by (rule indentStates_Suc)
  have out: "fst (applyIndentFactor lines factor) ! j = indentLine step factor ?st ?l"
    unfolding applyIndentFactor_def sts_def step_def using j by (rule indentLoop_nth)
  have r_eq: "r = (if 0 < sp then removeCount step factor ?st sp else 0)"
    by (simp add: r_def nxt indentNext_def Let_def sp_def)
  have al: "prevAligned (sts ! Suc j) \<longleftrightarrow> 0 < sp \<and> isAligned step ?st sp"
    by (simp add: nxt indentNext_def Let_def sp_def)
  have c1: "fst (applyIndentFactor lines factor) ! j = removeNSpaces ?l r"
    by (auto simp add: out indentLine_def Let_def r_eq sp_def removeNSpaces_def)
  have init: "remOK indentInit" by (simp add: remOK_def indentInit_def)
  have "remOK (sts ! Suc j)"
    unfolding sts_def using f init j by (simp add: indentStates_remOK)
  moreover have "prevSp (sts ! Suc j) = sp"
    by (simp add: nxt indentNext_def Let_def sp_def)
  ultimately have c2: "0 \<le> r" "r \<le> int sp" by (simp_all add: remOK_def r_def)
  have c3: "plain (fst (applyIndentFactor lines factor) ! j) = drop (nat r) (plain ?l)"
    if "spaceIndented ?l"
  proof -
    from that c2 have "nat r \<le> countSpaces (plain ?l)" by (simp add: spaceIndented_def sp_def)
    with c2(1) show ?thesis by (simp add: c1 removeNSpaces_plain)
  qed
  have c5: "0 < j \<and> r = prevRemoved ?st \<and> prevOrig ?st = Some (plain (lines ! (j - 1)))
            \<and> prevSp ?st = indentOf (plain (lines ! (j - 1)))"
    if a: "prevAligned (sts ! Suc j)"
  proof -
    from a al have sp: "0 < sp" and ia: "isAligned step ?st sp" by simp_all
    have "0 < j"
    proof (rule ccontr)
      assume "\<not> 0 < j"
      then have "?st = indentInit" by (cases lines) (simp_all add: sts_def)
      with ia show False by (simp add: isAligned_def hasPrevContent_def indentInit_def)
    qed
    then obtain k where k: "j = Suc k" by (cases j) auto
    with j have "Suc k < Suc (length lines)" by simp
    from indentStates_prev [OF this, of step factor indentInit] k
    have "prevOrig ?st = Some (plain (lines ! (j - 1)))"
      "prevSp ?st = indentOf (plain (lines ! (j - 1)))"
      by (simp_all add: sts_def)
    moreover from sp ia have "r = prevRemoved ?st" by (simp add: r_eq removeCount_def)
    ultimately show ?thesis using \<open>0 < j\<close> by simp
  qed
  have c6: "r = int sp - jsRound (of_nat sp * factor)"
    if "\<not> prevAligned (sts ! Suc j) \<and> 0 < sp"
    using that al by (auto simp add: r_eq removeCount_def)
  have c7: "int sp - r = (int sp + 1) div 2"
    if "\<not> prevAligned (sts ! Suc j) \<and> 0 < sp \<and> factor = 1 / 2"
  proof -
    from that have "factor = 1 / 2" by blast
    with that c6 have "r = int sp - jsRound (of_nat sp * (1 / 2))" by blast
    then show ?thesis by (simp add: jsRound_half_div)
  qed
  have c8: "4 \<le> sp" if "step = 4 \<and> 0 < sp"
  proof -
    from that j have mem: "sp \<in> set (positives lines)"
      by (auto simp add: positives_def sp_def leadingSpaces_def)
    then have "positives lines \<noteq> []" by auto
    with that have "Min (set (positives lines)) = 4"
      by (simp add: step_def detectIndentStep_min)
    moreover have "Min (set (positives lines)) \<le> sp" using mem by simp
    ultimately show ?thesis by simp
  qed
  have c9: "of_nat (computeCompressedStep step cols) / of_nat step = (1 / 2 :: rat)"
    if "step = 4 \<and> cols < 35"
    using that by (simp add: computeCompressedStep_cases)
  from c1 c2 c3 al c5 c6 c7 c8 c9 show ?thesis by blast
qed

lemma alignedBlock_states:
  "indentStates (detectIndentStep alignedBlock) (1 / 2) indentInit alignedBlock =
     [indentInit,
      \<lparr>prevOrig = Some ''int f() {'', prevSp = 0, prevRemoved = 0, prevAligned = False\<rparr>,
      \<lparr>prevOrig = Some ''    foobar(x,'', prevSp = 4, prevRemoved = 2, prevAligned = False\<rparr>,
      \<lparr>prevOrig = Some ''           y);'', prevSp = 11, prevRemoved = 2, prevAligned = True\<rparr>]"
  by (simp add: alignedBlock_def seg_def detectIndentStep_def leadingSpaces_def indentOf_def
        searchNonWhite_def isWhite_def indentNext_def removeCount_def isAligned_def
        hasPrevContent_def indentInit_def jsRound_def floor_numeral_quot Let_def)

theorem aligned_indent_copied_witness:
  "prevAligned (indentStates (detectIndentStep alignedBlock) (1 / 2) indentInit alignedBlock ! 3) \<and>
   prevRemoved (indentStates (detectIndentStep alignedBlock) (1 / 2) indentInit alignedBlock ! 3) = 2 \<and>
   prevRemoved (indentStates (detectIndentStep alignedBlock) (1 / 2) indentInit alignedBlock ! 2) = 2 \<and>
   spaceIndented (alignedBlock ! 2) \<and>
   plain (fst (applyIndentFactor alignedBlock (1 / 2)) ! 2) = ''         y);''"
proof -
  have sp: "spaceIndented (alignedBlock ! 2)"
    by (simp add: spaceIndented_def alignedBlock_def seg_def indentOf_def searchNonWhite_def
          isWhite_def countSpaces_def)
  have "(2::nat) < length alignedBlock" by (simp add: alignedBlock_def)
  from aligned_indent_copied [OF _ _ this, of "1 / 2" 30] sp
  have "plain (fst (applyIndentFactor alignedBlock (1 / 2)) ! 2)
          = drop 2 (plain (alignedBlock ! 2))"
    by (auto simp add: alignedBlock_states)
  then show ?thesis using sp
    by (simp add: alignedBlock_states) (simp add: alignedBlock_def seg_def)
qed

section \<open>Properties of the block formatter\<close>

lemma langOf_excluded:
  "data_lang pre = Some l \<Longrightarrow> l \<in> {''asm'', ''nasm'', ''gas''} \<Longrightarrow> SKIP_LANGS (langOf pre)"
  by (auto simp add: langOf_def toLowerCase_def toLowerChar_def SKIP_LANGS_def)

lemma formatBlock_excluded:
  "SKIP_LANGS (langOf pre) \<Longrightarrow> formatBlock B pre cols factor = pre"
  by (simp add: formatBlock_def split: option.splits)

lemma restoreOne_pristine: "pristine pre \<Longrightarrow> restoreOne B pre = pre"
  by (simp add: restoreOne_def pristine_def split: option.splits)

lemma formatAll_nth:
  "i < length page \<Longrightarrow>
   formatAll B cols page ! i = restoreOne B (page ! i) \<or>
   (\<exists>factor. formatAll B cols page ! i = formatBlock B (restoreOne B (page ! i)) cols factor)"
  by (auto simp add: formatAll_def restoreAll_def Let_def)

lemma restoreOne_lang: "data_lang (restoreOne B pre) = data_lang pre"
  by (simp add: restoreOne_def split: option.splits)

lemma langOf_restoreOne: "langOf (restoreOne B pre) = langOf pre"
  by (simp add: langOf_def restoreOne_lang)

text \<open>
  Claim C9. A block tagged \<^verbatim>\<open>asm\<close>, \<^verbatim>\<open>nasm\<close> or \<^verbatim>\<open>gas\<close> is returned by
  \<open>formatBlock\<close> as it was, content and attributes, at every width and factor; and
  such a block without a snapshot is left as it was by a whole pass over any page that
  holds it, at every width.
\<close>

theorem excluded_block_untouched:
  assumes "data_lang pre = Some l" and "l \<in> {''asm'', ''nasm'', ''gas''}"
  shows "formatBlock B pre cols factor = pre \<and>
         (\<forall>page i. i < length page \<and> page ! i = pre \<and> pristine pre
            \<longrightarrow> formatAll B cols' page ! i = pre)"
proof -
  have skip: "SKIP_LANGS (langOf pre)" using assms by (rule langOf_excluded)
  then have one: "\<And>c f. formatBlock B pre c f = pre" by (rule formatBlock_excluded)
  have "formatAll B cols' page ! i = pre"
    if "i < length page" "page ! i = pre" "pristine pre" for page i
    using formatAll_nth [OF that(1), of B cols'] that one
    by (auto simp add: restoreOne_pristine)
  with one show ?thesis by blast
qed

theorem excluded_block_untouched_witness:
  "formatBlock \<lparr>parseHTML = (\<lambda>h. [TextNode h]), serializeHTML = (\<lambda>ns. [])\<rparr>
     \<lparr>data_lang = Some ''asm'',
      codeEl = Some \<lparr>childNodes = [TextNode ''        mov     eax, dword ptr [rbp - 4]''],
                     data_original = None\<rparr>\<rparr> 20 (1 / 2)
   = \<lparr>data_lang = Some ''asm'',
      codeEl = Some \<lparr>childNodes = [TextNode ''        mov     eax, dword ptr [rbp - 4]''],
                     data_original = None\<rparr>\<rparr>"
  using excluded_block_untouched
    [of "\<lparr>data_lang = Some ''asm'',
          codeEl = Some \<lparr>childNodes = [TextNode ''        mov     eax, dword ptr [rbp - 4]''],
                         data_original = None\<rparr>\<rparr>" "''asm''"
        "\<lparr>parseHTML = (\<lambda>h. [TextNode h]), serializeHTML = (\<lambda>ns. [])\<rparr>" 20 "1 / 2" 20]
  by simp


lemma formatBlock_lang [simp]: "data_lang (formatBlock B p cols f) = data_lang p"
  by (simp add: formatBlock_def Let_def split: option.splits)

lemma snapshot_restoreOne [simp]: "snapshot (restoreOne B p) = snapshot p"
  by (simp add: snapshot_def restoreOne_def split: option.splits)

lemma snapshot_kept:
  "snapshot p = Some h \<Longrightarrow> snapshot (formatBlock B p cols f) = Some h"
  by (auto simp add: snapshot_def formatBlock_def Let_def split: option.splits)

lemma snapshot_created:
  assumes "snapshot p = None" and "snapshot (formatBlock B p cols f) \<noteq> None"
  shows "formatBlock B p cols f \<noteq> p \<and>
   (\<exists>ce. codeEl p = Some ce \<and> snapshot (formatBlock B p cols f) = Some (serializeHTML B (childNodes ce)))"
proof -
  from assms have "formatBlock B p cols f \<noteq> p" by auto
  moreover from assms have "\<exists>ce. codeEl p = Some ce \<and>
      snapshot (formatBlock B p cols f) = Some (serializeHTML B (childNodes ce))"
    by (cases "codeEl p")
       (auto simp add: snapshot_def formatBlock_def Let_def split: if_splits)
  ultimately show ?thesis by simp
qed

lemma formatAll_snapshot:
  assumes "i < length page" "snapshot (page ! i) = Some h"
  shows "snapshot (formatAll B cols page ! i) = Some h"
  using formatAll_nth [OF assms(1), of B cols] assms(2)
  by (auto simp add: snapshot_kept)

lemma reformat_same:
  assumes "pristine p" "roundTrips B p"
  shows "formatBlock B (restoreOne B (formatBlock B p cols f)) cols f = formatBlock B p cols f \<and>
         sameLines (restoreOne B (formatBlock B p cols f)) p"
proof (cases "formatBlock B p cols f = p")
  case True
  with assms(1) show ?thesis by (simp add: restoreOne_pristine sameLines_def)
next
  case False
  then obtain ce where ce: "codeEl p = Some ce"
    by (cases "codeEl p") (auto simp add: formatBlock_def)
  with assms(1) have orig: "data_original ce = None" by (simp add: pristine_def)
  define r where "r = formatLines (extractLines (childNodes ce)) cols f (langOf p)"
  define q where "q = p\<lparr>codeEl := Some \<lparr>childNodes = parseHTML B (joinNL (fst r)),
                      data_original = Some (serializeHTML B (childNodes ce))\<rparr>\<rparr>"
  from False ce have cond: "\<not> SKIP_LANGS (langOf p)"
    "\<not> MAX_LINES < length (extractLines (childNodes ce))" "snd r"
    by (auto simp add: formatBlock_def Let_def r_def split: if_splits)
  then have fq: "formatBlock B p cols f = q"
    using ce orig by (simp add: formatBlock_def Let_def r_def q_def)
  define q' where "q' = p\<lparr>codeEl := Some \<lparr>childNodes = parseHTML B (serializeHTML B (childNodes ce)),
                      data_original = Some (serializeHTML B (childNodes ce))\<rparr>\<rparr>"
  have rq: "restoreOne B q = q'" by (simp add: restoreOne_def q_def q'_def)
  from assms(2) ce have rt: "extractLines (parseHTML B (serializeHTML B (childNodes ce)))
      = extractLines (childNodes ce)" by (simp add: roundTrips_def)
  have lq: "langOf q' = langOf p" by (simp add: langOf_def q'_def)
  have "formatBlock B q' cols f = q"
    using cond rt by (simp add: formatBlock_def Let_def q'_def q_def r_def lq [unfolded q'_def])
  moreover have "sameLines q' p"
    using rt ce by (simp add: sameLines_def linesOf_def q'_def)
  ultimately show ?thesis by (simp add: fq rq)
qed

lemma pageFactor_cong:
  "list_all2 sameLines xs ys \<Longrightarrow>
   pageFactor cols (filter (\<lambda>p. data_lang p \<noteq> None) xs)
     = pageFactor cols (filter (\<lambda>p. data_lang p \<noteq> None) ys)"
proof (induction rule: list_all2_induct)
  case Nil
  then show ?case by simp
next
  case (Cons x xs y ys)
  from Cons.hyps(1) have l: "langOf x = langOf y" and d: "data_lang x = data_lang y"
    and n: "linesOf x = linesOf y"
    by (simp_all add: sameLines_def langOf_def)
  show ?case
  proof (cases "data_lang x = None")
    case True
    with d Cons.IH show ?thesis by simp
  next
    case False
    with d have "data_lang y \<noteq> None" by simp
    with False Cons.IH l n show ?thesis
      by (cases "codeEl x"; cases "codeEl y") (auto simp add: linesOf_def Let_def)
  qed
qed

lemma filter_lang_same:
  "list_all2 sameLines xs ys \<Longrightarrow>
   (filter (\<lambda>p. data_lang p \<noteq> None) xs = []) = (filter (\<lambda>p. data_lang p \<noteq> None) ys = [])"
  by (induction rule: list_all2_induct) (auto simp add: sameLines_def)

lemma formatAll_pristine:
  assumes "list_all pristine page"
  shows "formatAll B cols page =
     (if filter (\<lambda>p. data_lang p \<noteq> None) page = [] \<or> cols \<le> 0 \<or> MAX_COLS \<le> cols then page
      else map (passOne B cols (pageFactor cols (filter (\<lambda>p. data_lang p \<noteq> None) page))) page)"
proof -
  have "restoreAll B page = page"
    unfolding restoreAll_def using assms
    by (intro map_idI) (simp add: list_all_iff restoreOne_pristine)
  then show ?thesis by (auto simp add: formatAll_def Let_def passOne_def)
qed

lemma formatAll_twice:
  assumes pr: "list_all pristine page" and rt: "list_all (roundTrips B) page"
  shows "formatAll B cols (formatAll B cols page) = formatAll B cols page"
proof (cases "filter (\<lambda>p. data_lang p \<noteq> None) page = [] \<or> cols \<le> 0 \<or> MAX_COLS \<le> cols")
  case True
  then have "formatAll B cols page = page" using pr by (simp add: formatAll_pristine)
  then show ?thesis by simp
next
  case False
  define f where "f = pageFactor cols (filter (\<lambda>p. data_lang p \<noteq> None) page)"
  define Q where "Q = map (passOne B cols f) page"
  have fq: "formatAll B cols page = Q" using False pr by (simp add: formatAll_pristine Q_def f_def)
  have each: "passOne B cols f (restoreOne B (passOne B cols f p)) = passOne B cols f p
              \<and> sameLines (restoreOne B (passOne B cols f p)) p" if "p \<in> set page" for p
  proof (cases "data_lang p = None")
    case True
    from that pr have "pristine p" by (simp add: list_all_iff)
    with True show ?thesis
      by (simp add: passOne_def restoreOne_pristine sameLines_def)
  next
    case lang: False
    from that pr rt have "pristine p" "roundTrips B p" by (simp_all add: list_all_iff)
    from reformat_same [OF this, of cols f] lang show ?thesis
      by (simp add: passOne_def restoreOne_lang)
  qed
  have same: "list_all2 sameLines (restoreAll B Q) page"
    unfolding restoreAll_def Q_def list_all2_conv_all_nth
    using each by simp
  have lang: "filter (\<lambda>p. data_lang p \<noteq> None) (restoreAll B Q) \<noteq> []"
    using filter_lang_same [OF same] False by simp
  have fac: "pageFactor cols (filter (\<lambda>p. data_lang p \<noteq> None) (restoreAll B Q)) = f"
    unfolding f_def using same by (rule pageFactor_cong)
  have "formatAll B cols Q = map (passOne B cols f) (restoreAll B Q)"
    using lang False fac by (auto simp add: formatAll_def Let_def passOne_def)
  also have "\<dots> = Q"
    unfolding restoreAll_def Q_def using each by simp
  finally show ?thesis by (simp add: fq)
qed

lemma formatAll_many:
  assumes pr: "list_all pristine page" and rt: "list_all (roundTrips B) page"
  shows "(formatAll B cols ^^ Suc n) page = formatAll B cols page"
proof (induction n)
  case 0
  then show ?case by simp
next
  case (Suc n)
  have "(formatAll B cols ^^ Suc (Suc n)) page = formatAll B cols ((formatAll B cols ^^ Suc n) page)"
    by simp
  also have "\<dots> = formatAll B cols (formatAll B cols page)" by (simp only: Suc.IH)
  also have "\<dots> = formatAll B cols page" using pr rt by (rule formatAll_twice)
  finally show ?case .
qed

text \<open>
  Claim C4. The snapshot of a block is never overwritten: a block that has one keeps
  it through \<open>formatBlock\<close> and through a whole pass, at every width; and a block
  without one gets one only when \<open>formatBlock\<close> changes it, holding the serialised
  content from before the change. On a page of blocks without snapshots whose content
  round-trips through serialising and parsing, a pass after a pass at the same width
  gives the page that one pass gives, and so does any number of passes: each pass
  restores every changed block from its snapshot and formats it as the first did.
\<close>

theorem passes_idempotent:
  assumes "list_all pristine page" and "list_all (roundTrips B) page"
  shows "formatAll B cols (formatAll B cols page) = formatAll B cols page \<and>
         (\<forall>n. (formatAll B cols ^^ Suc n) page = formatAll B cols page) \<and>
         (\<forall>pg i h c. i < length pg \<and> snapshot (pg ! i) = Some h
            \<longrightarrow> snapshot (formatAll B c pg ! i) = Some h) \<and>
         (\<forall>p h c f. snapshot p = Some h \<longrightarrow> snapshot (formatBlock B p c f) = Some h) \<and>
         (\<forall>p c f. snapshot p = None \<and> snapshot (formatBlock B p c f) \<noteq> None
            \<longrightarrow> formatBlock B p c f \<noteq> p \<and>
                (\<exists>ce. codeEl p = Some ce \<and>
                   snapshot (formatBlock B p c f) = Some (serializeHTML B (childNodes ce))))"
proof -
  have a: "formatAll B cols (formatAll B cols page) = formatAll B cols page"
    using assms by (rule formatAll_twice)
  have b: "(formatAll B cols ^^ Suc n) page = formatAll B cols page" for n
    using assms by (rule formatAll_many)
  have c: "snapshot (formatAll B c pg ! i) = Some h"
    if "i < length pg \<and> snapshot (pg ! i) = Some h" for pg i h c
    using that by (simp add: formatAll_snapshot)
  have d: "snapshot (formatBlock B p c f) = Some h" if "snapshot p = Some h" for p h c f
    using that by (rule snapshot_kept)
  have e: "formatBlock B p c f \<noteq> p \<and>
           (\<exists>ce. codeEl p = Some ce \<and>
              snapshot (formatBlock B p c f) = Some (serializeHTML B (childNodes ce)))"
    if "snapshot p = None \<and> snapshot (formatBlock B p c f) \<noteq> None" for p c f
    using that by (simp add: snapshot_created)
  from a b c d e show ?thesis by blast
qed

theorem passes_idempotent_witness:
  "list_all pristine twoBlocks \<and> list_all (roundTrips textBrowser) twoBlocks \<and>
   formatAll textBrowser 30 (formatAll textBrowser 30 twoBlocks)
     = formatAll textBrowser 30 twoBlocks"
proof -
  have p: "list_all pristine twoBlocks"
    by (simp add: twoBlocks_def block_def pristine_def)
  have r: "list_all (roundTrips textBrowser) twoBlocks"
    by (simp add: twoBlocks_def block_def roundTrips_def textBrowser_def nodeText_def)
  from passes_idempotent [OF p r, of 30] p r show ?thesis by simp
qed

section \<open>Properties of the scanner\<close>


lemma foldl_inv:
  assumes "P s" and "\<And>s x. x \<in> set xs \<Longrightarrow> P s \<Longrightarrow> P (f s x)"
  shows "P (foldl f s xs)"
  using assms by (induction xs arbitrary: s) auto

lemma applyRule_bounded:
  "bestBounded text flr maxCols st \<Longrightarrow> bestBounded text flr maxCols (applyRule text flr maxCols i prev st r)"
  by (auto simp add: bestBounded_def applyRule_def Let_def)

lemma bracketUpdate_best [simp]: "best (bracketUpdate c i st) = best st"
  by (simp add: bracketUpdate_def)

lemma scanStep_bounded:
  "bestBounded text flr maxCols st \<Longrightarrow> bestBounded text flr maxCols (scanStep text rules flr maxCols st i)"
proof -
  assume b: "bestBounded text flr maxCols st"
  have "bestBounded text flr maxCols (foldl (applyRule text flr maxCols i prev) st1 rules)"
    if "bestBounded text flr maxCols st1" for st1 prev
    using that by (rule foldl_inv) (rule applyRule_bounded)
  moreover have "bestBounded text flr maxCols (bracketUpdate c i st)" for c
    using b by (simp add: bestBounded_def)
  ultimately show ?thesis using b
    by (auto simp add: scanStep_def Let_def bestBounded_def)
qed

lemma scanLoop_bounded: "bestBounded text flr maxCols (scanLoop text lang flr maxCols initPs)"
  unfolding scanLoop_def
proof (rule foldl_inv)
  show "bestBounded text flr maxCols (scanInit initPs)"
    by (simp add: bestBounded_def scanInit_def)
qed (rule scanStep_bounded)

lemma scanChunk_bounds:
  "scanChunk text lang flr maxCols initPs = Some r \<Longrightarrow>
     int (bp r) \<le> maxCols \<and> bp r < length text \<and> flr < bp r"
  using scanLoop_bounded [of "text" flr maxCols lang initPs]
  by (auto simp add: scanChunk_def Let_def bestBounded_def split: if_splits option.splits)






















section \<open>Properties of the line breaker\<close>

lemma stripLoop_False [simp]: "stripLoop False l = l"
  by (induction l) auto

lemma countSpaces_less: "(countSpaces t < length t) = (\<exists>x\<in>set t. x \<noteq> CHR '' '')"
  by (induction t) (auto simp add: countSpaces_def)

lemma plain_stripLeading:
  "plain (stripLeading l) = dropWhile (\<lambda>c. c = CHR '' '') (plain l)"
  unfolding stripLeading_def
proof (induction l)
  case Nil
  then show ?case by simp
next
  case (Cons sg rest)
  let ?P = "\<lambda>c. c = CHR '' ''"
  let ?t = "seg_text sg"
  show ?case
  proof (cases "countSpaces ?t < length ?t")
    case True
    then obtain x where "x \<in> set ?t" "\<not> ?P x" by (auto simp add: countSpaces_less)
    then have "dropWhile ?P (?t @ plain rest) = dropWhile ?P ?t @ plain rest"
      by (rule dropWhile_append1)
    with True show ?thesis
      by (simp add: countSpaces_def dropWhile_eq_drop Let_def)
  next
    case False
    then have "\<forall>x\<in>set ?t. ?P x" by (simp add: countSpaces_less)
    then have "dropWhile ?P (?t @ plain rest) = dropWhile ?P (plain rest)"
      by (simp add: dropWhile_append2)
    with False Cons.IH show ?thesis
      by (simp add: Let_def)
  qed
qed

lemma plain_prependPad:
  "plain (prependPad l n) = replicate n (CHR '' '') @ dropWhile (\<lambda>c. c = CHR '' '') (plain l)"
  by (simp add: prependPad_def plain_stripLeading)

lemma plain_splitAt:
  "plain (fst (splitAt l pos)) = take pos (plain l)" "plain (snd (splitAt l pos)) = drop pos (plain l)"
  using splitLoop_plain [of 0 pos l] by (simp_all add: splitAt_def)

lemma spaces_split:
  "u = replicate (countSpaces u) (CHR '' '') @ dropWhile (\<lambda>c. c = CHR '' '') u"
  by (induction u) (auto simp add: countSpaces_def)

lemma dropWhile_pad:
  "dropWhile (\<lambda>c. c = a) (replicate n a @ s) = dropWhile (\<lambda>c. c = a) s"
  by (induction n) auto

lemma gap_exists:
  "\<exists>g. s = drop k (take b (replicate k (CHR '' '') @ s)) @ replicate g (CHR '' '')
           @ dropWhile (\<lambda>c. c = CHR '' '') (drop b (replicate k (CHR '' '') @ s))"
proof (cases "k \<le> b")
  case True
  let ?u = "drop (b - k) s"
  have "s = take (b - k) s @ ?u" by simp
  also have "?u = replicate (countSpaces ?u) (CHR '' '') @ dropWhile (\<lambda>c. c = CHR '' '') ?u"
    by (rule spaces_split)
  finally have "s = take (b - k) s @ replicate (countSpaces ?u) (CHR '' '')
                   @ dropWhile (\<lambda>c. c = CHR '' '') ?u" .
  moreover from True have "drop k (take b (replicate k (CHR '' '') @ s)) = take (b - k) s"
    by simp
  moreover from True have "drop b (replicate k (CHR '' '') @ s) = ?u" by simp
  ultimately show ?thesis by (simp only:) blast
next
  case False
  from False have "drop b (replicate k (CHR '' '') @ s) = replicate (k - b) (CHR '' '') @ s"
    by simp
  moreover have "dropWhile (\<lambda>c. c = CHR '' '') (replicate (k - b) (CHR '' '') @ s)
              = dropWhile (\<lambda>c. c = CHR '' '') s"
    by (rule dropWhile_pad)
  ultimately have d: "dropWhile (\<lambda>c. c = CHR '' '') (drop b (replicate k (CHR '' '') @ s))
              = dropWhile (\<lambda>c. c = CHR '' '') s"
    by (simp only:)
  from False have e: "drop k (take b (replicate k (CHR '' '') @ s)) = []" by simp
  have "s = [] @ replicate (countSpaces s) (CHR '' '') @ dropWhile (\<lambda>c. c = CHR '' '') s"
    using spaces_split [of s] by simp
  then show ?thesis unfolding d e by blast
qed

lemma rowContents_nonempty: "rowContents bs rem k \<noteq> []"
  by (cases bs) auto

lemma joinGaps_Cons:
  "rows \<noteq> [] \<Longrightarrow> joinGaps (r # rows) (g # gs) = r @ replicate g (CHR '' '') @ joinGaps rows gs"
  by (cases rows) auto

lemma breakLoop_rule:
  assumes run: "breakLoop n lang cols budget indent fb rem p prevLen = (bs, final)"
    and stop: "\<And>rem p. P rem p [] rem"
    and brk: "\<And>rem p result bs final.
        budget < int (length (plain rem)) \<Longrightarrow>
        scanChunk (plain rem) lang (indentOf (plain rem)) budget p = Some result \<Longrightarrow>
        int (bp result) < int (length (plain rem)) - 1 \<Longrightarrow>
        P (prependPad (snd (splitAt rem (bp result)))
             (nat (chooseIndent result (depth p) indent fb cols))) (ps result) bs final \<Longrightarrow>
        P rem p (\<lparr>before = fst (splitAt rem (bp result)), res = result,
                   ci = chooseIndent result (depth p) indent fb cols\<rparr> # bs) final"
  shows "P rem p bs final"
  using run
proof (induction n arbitrary: rem p prevLen bs final)
  case 0
  then show ?case using stop by auto
next
  case (Suc n)
  let ?rt = "plain rem"
  show ?case
  proof (cases "int (length ?rt) \<le> budget")
    case True
    with Suc.prems show ?thesis using stop by auto
  next
    case over: False
    show ?thesis
    proof (cases "scanChunk ?rt lang (indentOf ?rt) budget p")
      case None
      with over Suc.prems show ?thesis using stop by auto
    next
      case (Some result)
      show ?thesis
      proof (cases "int (length ?rt) - 1 \<le> int (bp result)")
        case True
        with over Some Suc.prems show ?thesis using stop by auto
      next
        case False
        define c where "c = chooseIndent result (depth p) indent fb cols"
        define piece where "piece = \<lparr>before = fst (splitAt rem (bp result)), res = result, ci = c\<rparr>"
        define rem' where "rem' = prependPad (snd (splitAt rem (bp result))) (nat c)"
        have step: "P rem' (ps result) bs' final' \<Longrightarrow> P rem p (piece # bs') final'" for bs' final'
          using brk [of rem p result bs' final'] over Some False
          by (simp add: c_def piece_def rem'_def)
        show ?thesis
        proof (cases "prevLen \<le> length (plain rem')")
          case True
          with over Some False Suc.prems
          have "bs = [piece]" "final = rem'"
            by (auto simp add: Let_def c_def piece_def rem'_def)
          with step [of "[]" rem'] stop show ?thesis by simp
        next
          case progress: False
          obtain bs' final' where rec:
            "breakLoop n lang cols budget indent fb rem' (ps result) (length (plain rem')) = (bs', final')"
            by (cases "breakLoop n lang cols budget indent fb rem' (ps result) (length (plain rem'))")
          with over Some False progress Suc.prems
          have res: "bs = piece # bs'" "final = final'"
            by (auto simp add: Let_def c_def piece_def rem'_def)
          from Suc.IH [OF rec] step res show ?thesis by simp
        qed
      qed
    qed
  qed
qed

lemma breakLoop_content:
  assumes "breakLoop n lang cols budget indent fb rem p prevLen = (bs, final)"
  shows "\<forall>k s. plain rem = replicate k (CHR '' '') @ s \<longrightarrow>
           (\<exists>gs. length gs = length bs \<and> s = joinGaps (rowContents bs final k) gs)"
  using assms
proof (rule breakLoop_rule)
  fix rem :: line and p :: pstate
  show "\<forall>k s. plain rem = replicate k (CHR '' '') @ s \<longrightarrow>
           (\<exists>gs. length gs = length [] \<and> s = joinGaps (rowContents [] rem k) gs)"
    by simp
next
  fix rem :: line and p :: pstate and result bs final
  let ?c = "chooseIndent result (depth p) indent fb cols"
  let ?rem' = "prependPad (snd (splitAt rem (bp result))) (nat ?c)"
  let ?piece = "\<lparr>before = fst (splitAt rem (bp result)), res = result, ci = ?c\<rparr>"
  assume IH: "\<forall>k s. plain ?rem' = replicate k (CHR '' '') @ s \<longrightarrow>
           (\<exists>gs. length gs = length bs \<and> s = joinGaps (rowContents bs final k) gs)"
  show "\<forall>k s. plain rem = replicate k (CHR '' '') @ s \<longrightarrow>
           (\<exists>gs. length gs = length (?piece # bs) \<and> s = joinGaps (rowContents (?piece # bs) final k) gs)"
  proof (intro allI impI)
    fix k s
    assume rt: "plain rem = replicate k (CHR '' '') @ s"
    define s' where "s' = dropWhile (\<lambda>c. c = CHR '' '') (drop (bp result) (plain rem))"
    have "plain ?rem' = replicate (nat ?c) (CHR '' '') @ s'"
      by (simp add: s'_def plain_prependPad plain_splitAt)
    with IH obtain gs where
      gs: "length gs = length bs" "s' = joinGaps (rowContents bs final (nat ?c)) gs"
      by blast
    obtain g where g: "s = drop k (take (bp result) (plain rem)) @ replicate g (CHR '' '') @ s'"
      using gap_exists [of s k "bp result"] rt by (auto simp add: s'_def)
    have "s = joinGaps (rowContents (?piece # bs) final k) (g # gs)"
      using g gs(2) by (simp add: joinGaps_Cons rowContents_nonempty plain_splitAt)
    moreover have "length (g # gs) = length (?piece # bs)" using gs(1) by simp
    ultimately show "\<exists>gs. length gs = length (?piece # bs) \<and>
        s = joinGaps (rowContents (?piece # bs) final k) gs" by blast
  qed
qed


lemma breakLoop_budget:
  assumes "breakLoop n lang cols budget indent fb rem p prevLen = (bs, final)"
  shows "\<forall>b\<in>set bs. int (length (plain (before b))) \<le> budget"
  using assms
proof (rule breakLoop_rule)
  fix rem :: line and p :: pstate and result and bs :: "brk list" and final :: line
  assume "scanChunk (plain rem) lang (indentOf (plain rem)) budget p = Some result"
  then have "int (bp result) \<le> budget" by (simp add: scanChunk_bounds)
  moreover assume "\<forall>b\<in>set bs. int (length (plain (before b))) \<le> budget"
  ultimately show "\<forall>b\<in>set (\<lparr>before = fst (splitAt rem (bp result)), res = result,
                 ci = chooseIndent result (depth p) indent fb cols\<rparr> # bs).
           int (length (plain (before b))) \<le> budget"
    by (simp add: plain_splitAt)
qed simp












section \<open>Evaluating the scanner and the breaker on a given line\<close>

lemma fmoLoop_numeral:
  "fmoLoop t cls opn d (numeral k) =
     (if t ! pred_numeral k = cls then fmoLoop t cls opn (d + 1) (pred_numeral k)
      else if t ! pred_numeral k = opn
        then (if d - 1 = 0 then int (pred_numeral k) else fmoLoop t cls opn (d - 1) (pred_numeral k))
      else fmoLoop t cls opn d (pred_numeral k))"
  by (simp add: numeral_eq_Suc)

lemma replicate_numeral:
  "replicate (numeral k) x = x # replicate (pred_numeral k) x"
  by (simp add: numeral_eq_Suc)

lemma MAX_SPLITS_Suc:
  "MAX_SPLITS = Suc (Suc (Suc (Suc (Suc (Suc (Suc (Suc (Suc (Suc 0)))))))))"
  by (simp add: MAX_SPLITS_def)

lemmas scan_defs = scanChunk_def scanLoop_def scanStep_def scanInit_def applyRule_def
  bracketUpdate_def matchesAt_def skipsSingleArg_def singleArgContainer_def
  findMatchingOpen_def rulesFor_def RULES_def SPACE_BREAK_LANGS_def COMMON_RULES_def
  c_like_def SPACE_RULES_def mk_def OPENERS_def CLOSERS_def dquote_def squote_def
  backslash_def fmoLoop_numeral upt_rec_numeral

lemmas break_defs = breakPieces_def budgetOf_def BACKSLASH_LANGS_def BACKSLASH_RESERVE_def
  MAX_SPLITS_Suc replicate_numeral leadingSpaces_def indentOf_def searchNonWhite_def
  isWhite_def defaultContIndent_def CONT_INDENT_def LD_COLON_OFFSET_def chooseIndent_def
  continuationIndent_def PAREN_OFFSET_def splitAt_def prependPad_def stripLeading_def
  countSpaces_def seg_def marker_def

lemma condLine_breaks: "breakPieces condLine 30 ''c'' = Some condBreaks"
  by (simp add: condLine_def condBreaks_def scan_defs break_defs Let_def)

lemma shellLine_breaks: "breakPieces shellLine 11 ''bash'' = Some shellBreaks"
  by (simp add: shellLine_def shellBreaks_def scan_defs break_defs Let_def)



lemma escapedText_scan:
  "scanChunk escapedText ''bash'' 0 20 \<lparr>depth = 0, col = - 1\<rparr>
     = Some \<lparr>bp = 16, ps = \<lparr>depth = 0, col = - 1\<rparr>, hasArgSep = True\<rparr>"
  by (simp add: escapedText_def scan_defs Let_def)

lemma escapedLine_breaks: "breakPieces escapedLine 22 ''bash'' = Some escapedBreaks"
  by (simp add: escapedLine_def escapedBreaks_def escapedText_def scan_defs break_defs Let_def)



section \<open>The claims about the scanner\<close>

text \<open>
  Claim C5 does not hold of the scanner. Outside a string the scanner opens a string at
  every quote character, also at one that a backslash escapes; only the test that
  closes a string looks at the character before the quote. In the shell command
  \<^verbatim>\<open>echo \"x\" "aaaa bbbb cccc"\<close> the string it opens at the first escaped quote ends
  at the quote that opens the quoted argument, so the spaces of that argument are
  scanned as unquoted ones: at a budget of \<open>20\<close> the scanner returns the offset
  \<open>16\<close>, which lies inside the quoted run that opens at the unescaped quote at
  offset \<open>11\<close>, and at \<open>22\<close> columns the line is broken there, behind \<^verbatim>\<open>"aaaa\<close>.
\<close>

theorem break_inside_quoted_run:
  "scanChunk escapedText ''bash'' 0 20 \<lparr>depth = 0, col = - 1\<rparr>
     = Some \<lparr>bp = 16, ps = \<lparr>depth = 0, col = - 1\<rparr>, hasArgSep = True\<rparr> \<and>
   \<not> insideQuote escapedText 11 \<and> insideQuote escapedText 12 \<and>
   insideQuote escapedText 16 \<and> insideQuote escapedText 26 \<and>
   map_option (emitted ''bash'') (breakPieces escapedLine 22 ''bash'')
     = Some [''echo '' @ [backslash, dquote] @ ''x'' @ [backslash, dquote] @ '' ''
               @ [dquote] @ ''aaaa'' @ marker ''bash'',
             ''    bbbb cccc'' @ [dquote]]"
proof -
  have "\<not> insideQuote escapedText 11 \<and> insideQuote escapedText 12 \<and>
        insideQuote escapedText 16 \<and> insideQuote escapedText 26"
    by (simp add: insideQuote_def escapedText_def quoteStep_def dquote_def squote_def
          backslash_def)
  moreover have "map_option (emitted ''bash'') (breakPieces escapedLine 22 ''bash'')
     = Some [''echo '' @ [backslash, dquote] @ ''x'' @ [backslash, dquote] @ '' ''
               @ [dquote] @ ''aaaa'' @ marker ''bash'',
             ''    bbbb cccc'' @ [dquote]]"
    by (simp add: escapedLine_breaks) (simp add: escapedBreaks_def emitted_def seg_def)
  ultimately show ?thesis by (simp add: escapedText_scan)
qed




section \<open>The claims about the line breaker\<close>

lemma filter_joinGaps:
  "filter (\<lambda>c. c \<noteq> CHR '' '') (joinGaps rows gs) = filter (\<lambda>c. c \<noteq> CHR '' '') (concat rows)"
  by (induction rows gs rule: joinGaps.induct) simp_all

text \<open>
  Claim C1, as stated, fails: where the condition is broken before \<^verbatim>\<open> && \<close>, the
  space in front of \<^verbatim>\<open>&&\<close> is stripped with the rest of the continuation's leading
  spaces, so the rows without their inserted indentation do not join to the input.
\<close>

theorem content_counterexample:
  "map_option (\<lambda>r. concat (rowContents (fst r) (snd r) 0)) (breakPieces condLine 30 ''c'')
     = Some ''if (connection_is_ready&& buffer_has_capacity(buf, len)) {'' \<and>
   plain condLine = ''if (connection_is_ready && buffer_has_capacity(buf, len)) {''"
  by (simp add: condLine_breaks) (simp add: condBreaks_def condLine_def seg_def)

text \<open>
  Claim C1, amended. For every line that \<open>breakLine\<close> breaks, the emitted rows
  without markup, markers and inserted continuation indentation, joined with a run of
  spaces (possibly empty) at each break, are the flattened input line: nothing but
  the spaces that follow a break point is lost, and every other character is kept,
  in order.
\<close>

theorem content_preserved:
  assumes "breakPieces lne cols lang = Some r"
  shows "(\<exists>gs. length gs = length (fst r) \<and>
               plain lne = joinGaps (rowContents (fst r) (snd r) 0) gs) \<and>
         filter (\<lambda>c. c \<noteq> CHR '' '') (concat (rowContents (fst r) (snd r) 0))
           = filter (\<lambda>c. c \<noteq> CHR '' '') (plain lne)"
proof -
  from assms have run:
    "breakLoop MAX_SPLITS lang cols (budgetOf cols lang) (leadingSpaces lne)
       (defaultContIndent lang (plain lne) (leadingSpaces lne)) lne \<lparr>depth = 0, col = - 1\<rparr>
       (length (plain lne)) = (fst r, snd r)"
    by (auto simp add: breakPieces_def Let_def split: if_splits)
  have "plain lne = replicate 0 (CHR '' '') @ plain lne" by simp
  with breakLoop_content [OF run] obtain gs where
    gs: "length gs = length (fst r)" "plain lne = joinGaps (rowContents (fst r) (snd r) 0) gs"
    by blast
  from gs(2) have "filter (\<lambda>c. c \<noteq> CHR '' '') (plain lne)
      = filter (\<lambda>c. c \<noteq> CHR '' '') (concat (rowContents (fst r) (snd r) 0))"
    by (simp add: filter_joinGaps)
  with gs show ?thesis by auto
qed

theorem content_preserved_witness:
  "breakPieces condLine 30 ''c'' = Some condBreaks \<and>
   (\<exists>gs. length gs = 2 \<and>
      ''if (connection_is_ready && buffer_has_capacity(buf, len)) {''
        = joinGaps [''if (connection_is_ready'', ''&& buffer_has_capacity('', ''buf, len)) {''] gs)"
  using content_preserved [OF condLine_breaks]
  by (simp add: condLine_breaks) (simp add: condBreaks_def condLine_def seg_def numeral_2_eq_2)

text \<open>
  Claim C2, as stated, fails: in the shell line at \<open>11\<close> columns, whose effective
  budget is \<open>9\<close>, the first emitted row with its continuation marker has \<open>11\<close>
  characters, although none of its tokens is longer than the budget.
\<close>

theorem budget_counterexample:
  "map_option (\<lambda>r. map (\<lambda>b. plain (before b) @ marker ''bash'') (fst r))
       (breakPieces shellLine 11 ''bash'')
     = Some [''aaaa bbbb'' @ marker ''bash'', ''    cccc'' @ marker ''bash''] \<and>
   budgetOf 11 ''bash'' = 9 \<and>
   int (length (''aaaa bbbb'' @ marker ''bash'')) = 11 \<and>
   list_all (\<lambda>w. int (length w) \<le> budgetOf 11 ''bash'') (tokens (''aaaa bbbb'' @ marker ''bash''))"
  by (simp add: shellLine_breaks)
     (simp add: shellBreaks_def seg_def marker_def budgetOf_def BACKSLASH_LANGS_def
        BACKSLASH_RESERVE_def tokens_def backslash_def)

text \<open>
  Claim C2, amended. Every row that \<open>breakLine\<close> emits at a break, that is every
  emitted row but the last of a chain, has at most as many characters as the effective
  budget before its marker is appended, and at most as many as the column count with
  the marker. Nothing is said of the last row of a chain.
\<close>

theorem rows_within_budget:
  assumes "breakPieces lne cols lang = Some r"
  shows "\<forall>b\<in>set (fst r).
           int (length (plain (before b))) \<le> budgetOf cols lang \<and>
           int (length (plain (before b) @ marker lang)) \<le> cols"
proof -
  from assms have run:
    "breakLoop MAX_SPLITS lang cols (budgetOf cols lang) (leadingSpaces lne)
       (defaultContIndent lang (plain lne) (leadingSpaces lne)) lne \<lparr>depth = 0, col = - 1\<rparr>
       (length (plain lne)) = (fst r, snd r)"
    by (auto simp add: breakPieces_def Let_def split: if_splits)
  have "int (length (plain (before b) @ marker lang)) \<le> cols"
    if "int (length (plain (before b))) \<le> budgetOf cols lang" for b
    using that by (simp add: budgetOf_def marker_def BACKSLASH_RESERVE_def split: if_splits)
  with breakLoop_budget [OF run] show ?thesis by blast
qed

theorem rows_within_budget_witness:
  "breakPieces shellLine 11 ''bash'' = Some shellBreaks \<and>
   list_all (\<lambda>b. int (length (plain (before b))) \<le> 9 \<and>
                 int (length (plain (before b) @ marker ''bash'')) \<le> 11) (fst shellBreaks)"
proof -
  have "budgetOf 11 ''bash'' = 9"
    by (simp add: budgetOf_def BACKSLASH_LANGS_def BACKSLASH_RESERVE_def)
  with rows_within_budget [OF shellLine_breaks] show ?thesis
    by (simp add: shellLine_breaks list_all_iff)
qed




end
